theory Spec2Isabelle
  imports Main "HOL-Library.Word"
begin

section \<open>The load balancer of cmd/simplelb/lb.go\<close>

text \<open>
  A shallow embedding of \<^verbatim>\<open>src/cmd/simplelb/lb.go\<close>. The embedding is sequential:
  one operation runs at a time, so the mutex of a backend and the atomic operations on
  the cursor appear as plain reads and writes. Go's \<^verbatim>\<open>int\<close> and \<^verbatim>\<open>uint64\<close> are 64-bit
  words (a 64-bit platform); \<^verbatim>\<open>int\<close> is read as two's complement (\<open>sint\<close>, \<open><s\<close>).
  Calls of \<^verbatim>\<open>log\<close> and \<^verbatim>\<open>fmt.Println\<close> that only print are left out; \<^verbatim>\<open>log.Fatal\<close>,
  which ends the process, is kept.
\<close>

subsection \<open>Data\<close>

type_synonym go_int = "64 word"
type_synonym go_uint64 = "64 word"

text \<open>
  A \<^verbatim>\<open>*url.URL\<close>, as far as the program reads it: the text that \<^verbatim>\<open>URL.String()\<close>
  renders and the field \<^verbatim>\<open>URL.Host\<close>.
\<close>

record url =
  URL_String :: string
  URL_Host :: string

text \<open>
  \<^verbatim>\<open>type Backend struct { URL; Alive; ReverseProxy; mutex }\<close>. The reverse proxy of a
  backend is the single-host proxy built for a target address, so the field holds that
  target. Each element of the pool is an allocation of its own, as \<^verbatim>\<open>main\<close> creates
  them (\<^verbatim>\<open>&Backend{...}\<close> once per configured address).
\<close>

record Backend =
  URL :: url
  Alive :: bool
  ReverseProxy :: url

record ServerPool =
  backends :: "Backend list"
  currentIndex :: go_uint64

text \<open>A run-time panic of Go: the remainder by a zero length.\<close>

datatype panic = DivideByZero

subsection \<open>Backend record and registry\<close>

definition SetAlive :: "Backend \<Rightarrow> bool \<Rightarrow> Backend" where
  "SetAlive b alive = b\<lparr>Alive := alive\<rparr>"

definition IsAlive :: "Backend \<Rightarrow> bool" where
  "IsAlive b = Alive b"

definition AddBackend :: "ServerPool \<Rightarrow> Backend \<Rightarrow> ServerPool" where
  "AddBackend s backend = s\<lparr>backends := backends s @ [backend]\<rparr>"

text \<open>
  \<^verbatim>\<open>int(atomic.AddUint64(&s.currentIndex, 1) % uint64(len(s.backends)))\<close>: the cursor is
  incremented first (wrapping at \<open>2 ^ 64\<close>), then the new value is reduced modulo the
  length, which panics when the pool is empty. The result is below the length, so the
  conversion to \<^verbatim>\<open>int\<close> keeps it; it is a \<open>nat\<close> here.
\<close>

definition NextIndex :: "ServerPool \<Rightarrow> (panic + nat) \<times> ServerPool" where
  "NextIndex s =
     (let c = currentIndex s + 1;
          s' = s\<lparr>currentIndex := c\<rparr>
      in if length (backends s) = 0 then (Inl DivideByZero, s')
         else (Inr (unat c mod length (backends s)), s'))"

text \<open>
  \<^verbatim>\<open>for _, b := range s.backends { if b.URL.String() == backendUrl.String() { b.SetAlive(alive); return } }\<close>
\<close>

fun MarkBackendStatus_loop :: "Backend list \<Rightarrow> url \<Rightarrow> bool \<Rightarrow> Backend list" where
  "MarkBackendStatus_loop [] backendUrl alive = []"
| "MarkBackendStatus_loop (b # bs) backendUrl alive =
     (if URL_String (URL b) = URL_String backendUrl then SetAlive b alive # bs
      else b # MarkBackendStatus_loop bs backendUrl alive)"

definition MarkBackendStatus :: "ServerPool \<Rightarrow> url \<Rightarrow> bool \<Rightarrow> ServerPool" where
  "MarkBackendStatus s backendUrl alive =
     s\<lparr>backends := MarkBackendStatus_loop (backends s) backendUrl alive\<rparr>"

text \<open>
  The loop of \<^verbatim>\<open>GetNextPeer\<close>: \<^verbatim>\<open>for i := next; i < limit; i++\<close>. A peer is returned as
  its index in the pool (the pointer \<^verbatim>\<open>s.backends[idx]\<close>). The sum \<^verbatim>\<open>next + len\<close> is
  below \<open>2 ^ 63\<close> for every slice that fits in memory, so \<open>nat\<close> addition is exact.
\<close>

function GetNextPeer_loop ::
  "ServerPool \<Rightarrow> nat \<Rightarrow> nat \<Rightarrow> nat \<Rightarrow> (panic + nat option) \<times> ServerPool" where
  "GetNextPeer_loop s next limit i =
     (if i < limit then
        (if length (backends s) = 0 then (Inl DivideByZero, s)
         else
           (let idx = i mod length (backends s) in
            if IsAlive (backends s ! idx) then
              (Inr (Some idx),
               if i \<noteq> next then s\<lparr>currentIndex := of_nat idx\<rparr> else s)
            else GetNextPeer_loop s next limit (i + 1)))
      else (Inr None, s))"
  by pat_completeness auto
termination
  by (relation "measure (\<lambda>(s, next, limit, i). limit - i)") auto

definition GetNextPeer :: "ServerPool \<Rightarrow> (panic + nat option) \<times> ServerPool" where
  "GetNextPeer s =
     (case NextIndex s of
        (Inl p, s') \<Rightarrow> (Inl p, s')
      | (Inr next, s') \<Rightarrow>
          (let limit = next + length (backends s') in
           GetNextPeer_loop s' next limit next))"

declare GetNextPeer_loop.simps [simp del]

subsection \<open>Request attempt state\<close>

text \<open>
  The values a request carries in its \<^verbatim>\<open>context.Context\<close>. A context is the chain that
  \<^verbatim>\<open>context.WithValue\<close> builds, newest binding first; \<^verbatim>\<open>Value\<close> returns the newest
  binding of a key. The keys of this program are the \<^verbatim>\<open>int\<close> constants \<^verbatim>\<open>Attempt = 0\<close>
  and \<^verbatim>\<open>Retry = 1\<close>; keys of other packages have other types and never equal them.
\<close>

datatype ctx_key = IntKey go_int | OtherKey string

datatype ctx_value = IntVal go_int | OtherVal string

type_synonym go_context = "(ctx_key \<times> ctx_value) list"

definition Attempt :: ctx_key where
  "Attempt = IntKey 0"

definition Retry :: ctx_key where
  "Retry = IntKey 1"

definition WithValue :: "go_context \<Rightarrow> ctx_key \<Rightarrow> ctx_value \<Rightarrow> go_context" where
  "WithValue parent k v = (k, v) # parent"

definition Value :: "go_context \<Rightarrow> ctx_key \<Rightarrow> ctx_value option" where
  "Value c k = map_of c k"

text \<open>An \<^verbatim>\<open>*http.Request\<close>: what the program reads of it, and its context.\<close>

record request =
  RemoteAddr :: string
  URL_Path :: string
  Context :: go_context

definition WithContext :: "request \<Rightarrow> go_context \<Rightarrow> request" where
  "WithContext r c = r\<lparr>Context := c\<rparr>"

text \<open>\<^verbatim>\<open>if retry, ok := r.Context().Value(Retry).(int); ok { return retry }; return 0\<close>\<close>

definition GetRetryFromContext :: "request \<Rightarrow> go_int" where
  "GetRetryFromContext r =
     (case Value (Context r) Retry of Some (IntVal retry) \<Rightarrow> retry | _ \<Rightarrow> 0)"

definition GetAttemptsFromContext :: "request \<Rightarrow> go_int" where
  "GetAttemptsFromContext r =
     (case Value (Context r) Attempt of Some (IntVal attempt) \<Rightarrow> attempt | _ \<Rightarrow> 0)"

subsection \<open>Request router and retry controller\<close>

text \<open>
  What a request handler does to the outside, in order: \<^verbatim>\<open>http.Error(w, body, code)\<close>,
  one delivery attempt of the reverse proxy for a target (with the request it forwards
  and whether the round trip succeeded), and the wait \<^verbatim>\<open>time.After(d)\<close> in milliseconds.
\<close>

datatype event =
  HttpError string nat
| RoundTrip url request bool
| After nat

definition StatusServiceUnavailable :: nat where
  "StatusServiceUnavailable = 503"

text \<open>
  The forwarding collaborator (\<^verbatim>\<open>httputil.ReverseProxy\<close>) is outside the program: each
  call of \<^verbatim>\<open>ServeHTTP\<close> either delivers the response or calls the proxy's
  \<^verbatim>\<open>ErrorHandler\<close> with the error and the request (same context values). A run is
  given the outcomes of the successive deliveries as a list; a handler that needs an
  outcome beyond the end of the list has no result (\<open>None\<close>).
\<close>

datatype outcome = Delivers | Fails string

datatype status = Returned | Panicked panic

type_synonym result = "(status \<times> ServerPool \<times> event list) option"

definition emit :: "event list \<Rightarrow> result \<Rightarrow> result" where
  "emit es res =
     (case res of None \<Rightarrow> None | Some (st, s, es') \<Rightarrow> Some (st, s, es @ es'))"

text \<open>
  \<^verbatim>\<open>lb\<close>, the \<^verbatim>\<open>ServeHTTP\<close> of the proxy built for \<^verbatim>\<open>serverUrl\<close>, and the closure
  \<^verbatim>\<open>proxy.ErrorHandler\<close> of that proxy (it captures \<^verbatim>\<open>serverUrl\<close> and \<^verbatim>\<open>proxy\<close>).
\<close>

fun lb :: "outcome list \<Rightarrow> ServerPool \<Rightarrow> request \<Rightarrow> result"
and ServeHTTP :: "outcome list \<Rightarrow> ServerPool \<Rightarrow> url \<Rightarrow> request \<Rightarrow> result"
and ErrorHandler :: "outcome list \<Rightarrow> ServerPool \<Rightarrow> url \<Rightarrow> request \<Rightarrow> string \<Rightarrow> result"
where
  "lb outs s r =
     (let attempts = GetAttemptsFromContext r in
      if 3 <s attempts then
        Some (Returned, s, [HttpError ''Service not available'' StatusServiceUnavailable])
      else
        (case GetNextPeer s of
           (Inl p, s') \<Rightarrow> Some (Panicked p, s', [])
         | (Inr (Some peer), s') \<Rightarrow> ServeHTTP outs s' (ReverseProxy (backends s' ! peer)) r
         | (Inr None, s') \<Rightarrow>
             Some (Returned, s', [HttpError ''Service Not Available'' StatusServiceUnavailable])))"
| "ServeHTTP [] s serverUrl r = None"
| "ServeHTTP (Delivers # outs) s serverUrl r = Some (Returned, s, [RoundTrip serverUrl r True])"
| "ServeHTTP (Fails e # outs) s serverUrl r =
     emit [RoundTrip serverUrl r False] (ErrorHandler outs s serverUrl r e)"
| "ErrorHandler outs s serverUrl r e =
     (let retries = GetRetryFromContext r in
      if 3 <s retries then
        emit [After 10]
          (ServeHTTP outs s serverUrl
             (WithContext r (WithValue (Context r) Retry (IntVal (retries + 1)))))
      else
        (let s' = MarkBackendStatus s serverUrl False;
             attempts = GetAttemptsFromContext r
         in lb outs s' (WithContext r (WithValue (Context r) Attempt (IntVal (attempts + 1))))))"

declare lb.simps [simp del] ErrorHandler.simps [simp del]

subsection \<open>Liveness prober\<close>

text \<open>
  \<^verbatim>\<open>net.DialTimeout(network, address, timeout)\<close> is outside the program. It is a
  parameter: from a state of the network \<open>'w\<close>, the network name, the address and the
  timeout in seconds, it gives the error (\<open>None\<close> for \<^verbatim>\<open>nil\<close>) and the next state of the
  network, so that two probes of one address may differ.
\<close>

type_synonym 'w dialer = "'w \<Rightarrow> string \<Rightarrow> string \<Rightarrow> nat \<Rightarrow> string option \<times> 'w"

definition isBackendAlive :: "'w dialer \<Rightarrow> 'w \<Rightarrow> url \<Rightarrow> bool \<times> 'w" where
  "isBackendAlive dial w u =
     (let timeout = 2 in
      case dial w ''tcp'' (URL_Host u) timeout of
        (Some err, w') \<Rightarrow> (False, w')
      | (None, w') \<Rightarrow> (True, w'))"

text \<open>
  One iteration of \<^verbatim>\<open>for _, b := range s.backends\<close> in \<^verbatim>\<open>HealthCheck\<close>, on the backend
  at index \<open>i\<close>.
\<close>

definition HealthCheck_body :: "'w dialer \<Rightarrow> nat \<Rightarrow> 'w \<times> ServerPool \<Rightarrow> 'w \<times> ServerPool" where
  "HealthCheck_body dial i ws =
     (case ws of (w, s) \<Rightarrow>
        (let b = backends s ! i in
         case isBackendAlive dial w (URL b) of
           (alive, w') \<Rightarrow>
             (w', s\<lparr>backends := (backends s)[i := (if alive then SetAlive b True
                                                  else SetAlive b False)]\<rparr>)))"

text \<open>The state of the range loop after its first \<open>k\<close> iterations (indices \<open>0..<k\<close>).\<close>

primrec HealthCheck_iter :: "'w dialer \<Rightarrow> nat \<Rightarrow> 'w \<times> ServerPool \<Rightarrow> 'w \<times> ServerPool" where
  "HealthCheck_iter dial 0 ws = ws"
| "HealthCheck_iter dial (Suc k) ws = HealthCheck_body dial k (HealthCheck_iter dial k ws)"

definition HealthCheck :: "'w dialer \<Rightarrow> 'w \<times> ServerPool \<Rightarrow> 'w \<times> ServerPool" where
  "HealthCheck dial ws = HealthCheck_iter dial (length (backends (snd ws))) ws"

text \<open>
  \<^verbatim>\<open>healthCheck\<close> never returns: after its first call of \<^verbatim>\<open>HealthCheck\<close> it runs one more
  pass at every tick of a 20 second ticker. \<open>healthCheck dial n\<close> is its state once \<open>n\<close>
  ticks have been served.
\<close>

primrec healthCheck_ticks :: "'w dialer \<Rightarrow> nat \<Rightarrow> 'w \<times> ServerPool \<Rightarrow> 'w \<times> ServerPool" where
  "healthCheck_ticks dial 0 ws = ws"
| "healthCheck_ticks dial (Suc n) ws = healthCheck_ticks dial n (HealthCheck dial ws)"

definition healthCheck :: "'w dialer \<Rightarrow> nat \<Rightarrow> 'w \<times> ServerPool \<Rightarrow> 'w \<times> ServerPool" where
  "healthCheck dial n ws = healthCheck_ticks dial n (HealthCheck dial ws)"

subsection \<open>Startup\<close>

text \<open>
  \<^verbatim>\<open>strings.Split(s, ",")\<close> of the Go library, for a separator of one character: the
  pieces between the separators, one more than there are separators (\<^verbatim>\<open>[""]\<close> for the
  empty string).
\<close>

fun Split :: "string \<Rightarrow> char \<Rightarrow> string list" where
  "Split [] sep = [[]]"
| "Split (c # cs) sep =
     (if c = sep then [] # Split cs sep
      else (case Split cs sep of [] \<Rightarrow> [[c]] | tok # toks \<Rightarrow> (c # tok) # toks))"

text \<open>\<^verbatim>\<open>var serverPool ServerPool\<close>: the zero value.\<close>

definition serverPool :: ServerPool where
  "serverPool = \<lparr>backends = [], currentIndex = 0\<rparr>"

text \<open>
  How \<^verbatim>\<open>main\<close> ends its startup: \<^verbatim>\<open>log.Fatal\<close> (the process exits with the message), or
  the prober is started (\<^verbatim>\<open>go healthCheck()\<close>) and the server listens on the port with
  \<^verbatim>\<open>lb\<close> as its handler.
\<close>

datatype startup = Fatal string | Serving go_int

text \<open>
  \<^verbatim>\<open>for _, tok := range urls\<close> in \<^verbatim>\<open>main\<close>. \<^verbatim>\<open>url.Parse\<close> is a parameter (an error text
  or the address); the proxy of a backend is \<^verbatim>\<open>NewSingleHostReverseProxy(serverUrl)\<close>.
\<close>

fun main_loop :: "(string \<Rightarrow> string + url) \<Rightarrow> string list \<Rightarrow> ServerPool \<Rightarrow> string option \<times> ServerPool" where
  "main_loop Parse [] s = (None, s)"
| "main_loop Parse (tok # urls) s =
     (case Parse tok of
        Inl err \<Rightarrow> (Some err, s)
      | Inr serverUrl \<Rightarrow>
          main_loop Parse urls
            (AddBackend s \<lparr>URL = serverUrl, Alive = True, ReverseProxy = serverUrl\<rparr>))"

definition main :: "(string \<Rightarrow> string + url) \<Rightarrow> string \<Rightarrow> go_int \<Rightarrow> startup \<times> ServerPool" where
  "main Parse serverList port =
     (if length serverList = 0 then
        (Fatal ''Please provide one or more backends to load balance'', serverPool)
      else
        (let urls = Split serverList (CHR '','') in
         case main_loop Parse urls serverPool of
           (Some err, s) \<Rightarrow> (Fatal err, s)
         | (None, s) \<Rightarrow> (Serving port, s)))"

subsection \<open>Notions used to state the properties\<close>

text \<open>
  The indices that a scan of \<open>n\<close> backends visits from \<open>start\<close>: \<open>n\<close> consecutive
  indices, wrapping at \<open>n\<close>.
\<close>

definition scan_order :: "nat \<Rightarrow> nat \<Rightarrow> nat list" where
  "scan_order n start = map (\<lambda>k. (start + k) mod n) [0..<n]"

text \<open>\<open>n\<close> successive calls of \<^verbatim>\<open>NextIndex\<close>: the indices returned and the final pool.\<close>

primrec NextIndex_calls :: "nat \<Rightarrow> ServerPool \<Rightarrow> (panic + nat) list \<times> ServerPool" where
  "NextIndex_calls 0 s = ([], s)"
| "NextIndex_calls (Suc n) s =
     (case NextIndex s of (r, s') \<Rightarrow>
        (case NextIndex_calls n s' of (rs, s'') \<Rightarrow> (r # rs, s'')))"

text \<open>
  A sequence of calls on the pool, and the values of the rotation counter that the
  calls read in turn: each call reads the counter once, as the result of
  \<^verbatim>\<open>atomic.AddUint64\<close> in \<^verbatim>\<open>NextIndex\<close>.
\<close>

datatype pool_op = CallNextIndex | CallGetNextPeer

fun counter_reads :: "pool_op list \<Rightarrow> ServerPool \<Rightarrow> go_uint64 list" where
  "counter_reads [] s = []"
| "counter_reads (CallNextIndex # ops) s =
     currentIndex (snd (NextIndex s)) # counter_reads ops (snd (NextIndex s))"
| "counter_reads (CallGetNextPeer # ops) s =
     currentIndex (snd (NextIndex s)) # counter_reads ops (snd (GetNextPeer s))"

text \<open>
  The probes of one pass, as the specification words them: the hosts are dialled in
  order with the timeout of 2 seconds, each from the state of the network that the
  probe before it left; a probe succeeds when the dial returns no error.
\<close>

fun probe_results :: "'w dialer \<Rightarrow> 'w \<Rightarrow> string list \<Rightarrow> bool list \<times> 'w" where
  "probe_results dial w [] = ([], w)"
| "probe_results dial w (host # hosts) =
     (case dial w ''tcp'' host 2 of
        (err, w') \<Rightarrow>
          (case probe_results dial w' hosts of
             (oks, w'') \<Rightarrow> ((err = None) # oks, w'')))"

text \<open>The backends with their alive flags replaced, one by one, by the given values.\<close>

definition set_flags :: "Backend list \<Rightarrow> bool list \<Rightarrow> Backend list" where
  "set_flags bs oks = map2 (\<lambda>b ok. b\<lparr>Alive := ok\<rparr>) bs oks"

text \<open>
  No \<^verbatim>\<open>GetNextPeer\<close> of the sequence stores an index in the cursor: each leaves the
  cursor at the value its \<^verbatim>\<open>NextIndex\<close> gave it.
\<close>

fun no_fast_forward :: "pool_op list \<Rightarrow> ServerPool \<Rightarrow> bool" where
  "no_fast_forward [] s = True"
| "no_fast_forward (CallNextIndex # ops) s = no_fast_forward ops (snd (NextIndex s))"
| "no_fast_forward (CallGetNextPeer # ops) s =
     (currentIndex (snd (GetNextPeer s)) = currentIndex s + 1 \<and>
      no_fast_forward ops (snd (GetNextPeer s)))"

text \<open>
  An event of a run in which no retry cycle was started: a delivery of a request that
  carries no retries value, or an error response; never a retry wait.
\<close>

fun retry_free :: "event \<Rightarrow> bool" where
  "retry_free (RoundTrip target q ok) = (Value (Context q) Retry = None)"
| "retry_free (After d) = False"
| "retry_free (HttpError body code) = True"

text \<open>A delivery to the address text of \<open>u\<close> failed among the events.\<close>

fun failed_delivery_to :: "url \<Rightarrow> event \<Rightarrow> bool" where
  "failed_delivery_to u (RoundTrip target q ok) = (\<not> ok \<and> URL_String target = URL_String u)"
| "failed_delivery_to u (After d) = False"
| "failed_delivery_to u (HttpError body code) = False"

definition failed_target :: "event list \<Rightarrow> url \<Rightarrow> bool" where
  "failed_target es u = list_ex (failed_delivery_to u) es"

text \<open>
  What runs between the registration and the end of the first health-check pass: the
  prober does the next iteration of its first pass, or the server handles a request
  (given with the outcomes of its deliveries) to its end. The state is the network, the
  pool, the number of iterations done and the events so far. There is no state once the
  pass is over, or when a delivery has no outcome.
\<close>

datatype activity = ProbeNext | ServeRequest request "outcome list"

fun startup_window ::
  "'w dialer \<Rightarrow> activity list \<Rightarrow> 'w \<times> ServerPool \<times> nat \<times> event list \<Rightarrow>
   ('w \<times> ServerPool \<times> nat \<times> event list) option" where
  "startup_window dial [] st = Some st"
| "startup_window dial (ProbeNext # acts) (w, s, k, es) =
     (if k < length (backends s) then
        (case HealthCheck_body dial k (w, s) of
           (w', s') \<Rightarrow> startup_window dial acts (w', s', Suc k, es))
      else None)"
| "startup_window dial (ServeRequest r outs # acts) (w, s, k, es) =
     (case lb outs s r of
        None \<Rightarrow> None
      | Some (st, s', es') \<Rightarrow> startup_window dial acts (w, s', k, es @ es'))"

subsection \<open>Example pools and requests\<close>

definition url_a :: url where
  "url_a = \<lparr>URL_String = ''http://a:1'', URL_Host = ''a:1''\<rparr>"

definition url_b :: url where
  "url_b = \<lparr>URL_String = ''http://b:2'', URL_Host = ''b:2''\<rparr>"

definition url_c :: url where
  "url_c = \<lparr>URL_String = ''http://c:3'', URL_Host = ''c:3''\<rparr>"

definition url_z :: url where
  "url_z = \<lparr>URL_String = ''http://z:9'', URL_Host = ''z:9''\<rparr>"

text \<open>The scenario of the specification: A dead, B and C alive.\<close>

definition pool_abc :: "go_uint64 \<Rightarrow> ServerPool" where
  "pool_abc c =
     \<lparr>backends = [\<lparr>URL = url_a, Alive = False, ReverseProxy = url_a\<rparr>,
                  \<lparr>URL = url_b, Alive = True, ReverseProxy = url_b\<rparr>,
                  \<lparr>URL = url_c, Alive = True, ReverseProxy = url_c\<rparr>],
      currentIndex = c\<rparr>"

definition req :: "go_context \<Rightarrow> request" where
  "req c = \<lparr>RemoteAddr = ''10.0.0.7:4000'', URL_Path = ''/ping'', Context = c\<rparr>"

definition pool_dead :: ServerPool where
  "pool_dead =
     \<lparr>backends = [\<lparr>URL = url_a, Alive = False, ReverseProxy = url_a\<rparr>,
                  \<lparr>URL = url_b, Alive = False, ReverseProxy = url_b\<rparr>],
      currentIndex = 0\<rparr>"

definition req_attempts4 :: request where
  "req_attempts4 = req [(Attempt, IntVal 4)]"

definition pool_bc :: "bool \<Rightarrow> go_uint64 \<Rightarrow> ServerPool" where
  "pool_bc b_alive c =
     \<lparr>backends = [\<lparr>URL = url_a, Alive = False, ReverseProxy = url_a\<rparr>,
                  \<lparr>URL = url_b, Alive = b_alive, ReverseProxy = url_b\<rparr>,
                  \<lparr>URL = url_c, Alive = True, ReverseProxy = url_c\<rparr>],
      currentIndex = c\<rparr>"

text \<open>
  A sample of \<^verbatim>\<open>url.Parse\<close> (it rejects a blank in the text; the host follows
  \<^verbatim>\<open>http://\<close>), a network where every dial is refused, and one where only \<^verbatim>\<open>b:2\<close>
  answers.
\<close>

definition example_Parse :: "string \<Rightarrow> string + url" where
  "example_Parse tok =
     (if CHR '' '' \<in> set tok then Inl ''invalid character in host name''
      else Inr \<lparr>URL_String = tok, URL_Host = drop 7 tok\<rparr>)"

definition dial_down :: "unit dialer" where
  "dial_down w network address timeout = (Some ''connection refused'', w)"

definition dial_only_b :: "unit dialer" where
  "dial_only_b w network address timeout =
     (if address = ''b:2'' then (None, w) else (Some ''i/o timeout'', w))"

definition pool_ab_registered :: ServerPool where
  "pool_ab_registered = snd (main example_Parse ''http://a:1,http://b:2'' 3030)"

text \<open>
  A request as it enters the server (its context holds a key of the HTTP server only),
  the same request after one reroute, and a pool of the two backends A and B.
\<close>

definition req_inbound :: request where
  "req_inbound = req [(OtherKey ''http-server'', OtherVal ''srv'')]"

definition req_inbound_rerouted :: request where
  "req_inbound_rerouted = req [(Attempt, IntVal 1), (OtherKey ''http-server'', OtherVal ''srv'')]"

definition pool_ab :: "bool \<Rightarrow> bool \<Rightarrow> go_uint64 \<Rightarrow> ServerPool" where
  "pool_ab a_alive b_alive c =
     \<lparr>backends = [\<lparr>URL = url_a, Alive = a_alive, ReverseProxy = url_a\<rparr>,
                  \<lparr>URL = url_b, Alive = b_alive, ReverseProxy = url_b\<rparr>],
      currentIndex = c\<rparr>"

section \<open>Properties\<close>

subsection \<open>Auxiliary facts\<close>

lemma MarkBackendStatus_loop_nomatch:
  "\<forall>b\<in>set bs. URL_String (URL b) \<noteq> URL_String u \<Longrightarrow> MarkBackendStatus_loop bs u v = bs"
  by (induction bs) auto

lemma MarkBackendStatus_loop_first:
  "i < length bs \<Longrightarrow> URL_String (URL (bs ! i)) = URL_String u \<Longrightarrow>
   \<forall>j<i. URL_String (URL (bs ! j)) \<noteq> URL_String u \<Longrightarrow>
   MarkBackendStatus_loop bs u v = bs[i := SetAlive (bs ! i) v]"
proof (induction bs arbitrary: i)
  case Nil
  then show ?case by simp
next
  case (Cons b bs)
  show ?case
  proof (cases i)
    case 0
    with Cons.prems show ?thesis by simp
  next
    case (Suc k)
    with Cons.prems have nb: "URL_String (URL b) \<noteq> URL_String u" by auto
    have "MarkBackendStatus_loop bs u v = bs[k := SetAlive (bs ! k) v]"
      using Cons.prems Suc by (intro Cons.IH) auto
    with nb Suc show ?thesis by simp
  qed
qed

lemma MarkBackendStatus_loop_idem:
  "MarkBackendStatus_loop (MarkBackendStatus_loop bs u v) u v = MarkBackendStatus_loop bs u v"
  by (induction bs) (auto simp: SetAlive_def)

text \<open>The loop of \<^verbatim>\<open>GetNextPeer\<close> finds the first index of its range whose backend is alive.\<close>

lemma GetNextPeer_loop_find:
  "0 < length (backends s) \<Longrightarrow> i \<le> limit \<Longrightarrow>
   GetNextPeer_loop s next limit i =
     (case List.find (\<lambda>j. IsAlive (backends s ! (j mod length (backends s)))) [i..<limit] of
        None \<Rightarrow> (Inr None, s)
      | Some j \<Rightarrow> (Inr (Some (j mod length (backends s))),
                   if j \<noteq> next then s\<lparr>currentIndex := of_nat (j mod length (backends s))\<rparr> else s))"
proof (induction s "next" limit i rule: GetNextPeer_loop.induct)
  case (1 s "next" limit i)
  show ?case
  proof (cases "i < limit")
    case False
    with "1.prems" show ?thesis by (simp add: GetNextPeer_loop.simps)
  next
    case True
    then have upt: "[i..<limit] = i # [Suc i..<limit]" by (simp add: upt_conv_Cons)
    show ?thesis
    proof (cases "IsAlive (backends s ! (i mod length (backends s)))")
      case True
      with \<open>i < limit\<close> "1.prems" show ?thesis
        by (subst GetNextPeer_loop.simps) (simp add: upt Let_def)
    next
      case False
      with \<open>i < limit\<close> "1.prems" "1.IH" [OF \<open>i < limit\<close> _ refl False] show ?thesis
        by (subst GetNextPeer_loop.simps) (simp add: upt Let_def)
    qed
  qed
qed

lemma find_map_comp: "List.find P (map f xs) = map_option f (List.find (\<lambda>x. P (f x)) xs)"
  by (induction xs) auto

lemma upt_shift: "[start..<start + n] = map (\<lambda>k. start + k) [0..<n]"
  using map_add_upt [of start n] by (simp add: add.commute)

lemma set_scan_order: "0 < n \<Longrightarrow> start < n \<Longrightarrow> set (scan_order n start) = {0..<n}"
proof (rule set_eqI, rule iffI)
  fix x assume "0 < n" "start < n" "x \<in> set (scan_order n start)"
  then show "x \<in> {0..<n}" by (auto simp: scan_order_def)
next
  fix x assume n: "0 < n" and st: "start < n" and x: "x \<in> {0..<n}"
  define k where "k = (if start \<le> x then x - start else x + n - start)"
  have "k < n" using st x by (auto simp: k_def)
  moreover have "(start + k) mod n = x"
  proof (cases "start \<le> x")
    case True
    then show ?thesis using x by (simp add: k_def)
  next
    case False
    then have "start + k = x + n" using st by (simp add: k_def)
    then show ?thesis using x by simp
  qed
  ultimately show "x \<in> set (scan_order n start)"
    by (force simp: scan_order_def)
qed

lemma NextIndex_nonempty:
  "backends s \<noteq> [] \<Longrightarrow>
   NextIndex s = (Inr (unat (currentIndex s + 1) mod length (backends s)),
                  s\<lparr>currentIndex := currentIndex s + 1\<rparr>)"
  by (simp add: NextIndex_def Let_def)

lemma GetNextPeer_find:
  assumes ne: "backends s \<noteq> []"
  shows "GetNextPeer s =
     (let n = length (backends s);
          start = unat (currentIndex s + 1) mod n;
          s' = s\<lparr>currentIndex := currentIndex s + 1\<rparr>
      in case List.find (\<lambda>idx. IsAlive (backends s ! idx)) (scan_order n start) of
           None \<Rightarrow> (Inr None, s')
         | Some idx \<Rightarrow> (Inr (Some idx), if idx \<noteq> start then s'\<lparr>currentIndex := of_nat idx\<rparr> else s'))"
proof -
  define n where "n = length (backends s)"
  define start where "start = unat (currentIndex s + 1) mod n"
  define s' where "s' = s\<lparr>currentIndex := currentIndex s + 1\<rparr>"
  have n: "0 < n" using ne by (simp add: n_def)
  have st: "start < n" using n by (simp add: start_def)
  have bs': "backends s' = backends s" by (simp add: s'_def)
  have G: "GetNextPeer s = GetNextPeer_loop s' start (start + n) start"
    using ne by (simp add: GetNextPeer_def NextIndex_nonempty n_def start_def s'_def Let_def)
  have F: "List.find (\<lambda>j. IsAlive (backends s ! (j mod n))) [start..<start + n]
           = map_option (\<lambda>k. start + k) (List.find (\<lambda>k. IsAlive (backends s ! ((start + k) mod n))) [0..<n])"
    by (simp add: upt_shift find_map_comp)
  have F2: "List.find (\<lambda>idx. IsAlive (backends s ! idx)) (scan_order n start)
           = map_option (\<lambda>k. (start + k) mod n) (List.find (\<lambda>k. IsAlive (backends s ! ((start + k) mod n))) [0..<n])"
    by (simp add: scan_order_def find_map_comp)
  have neq: "(start + k \<noteq> start) = ((start + k) mod n \<noteq> start)"
    if "List.find (\<lambda>k. IsAlive (backends s ! ((start + k) mod n))) [0..<n] = Some k" for k
  proof -
    from that have "k \<in> set [0..<n]" by (auto simp: find_Some_iff)
    then have kn: "k < n" by simp
    show ?thesis
    proof (cases "k = 0")
      case True then show ?thesis using st by simp
    next
      case False
      have "(start + k) mod n \<noteq> start"
      proof
        assume e: "(start + k) mod n = start"
        show False
        proof (cases "start + k < n")
          case True with e False show False by simp
        next
          case False
          then have "(start + k) mod n = start + k - n" using kn st
            by (simp add: mod_if)
          with e kn False show False by simp
        qed
      qed
      with False show ?thesis by simp
    qed
  qed
  have "GetNextPeer_loop s' start (start + n) start =
     (case List.find (\<lambda>j. IsAlive (backends s' ! (j mod length (backends s')))) [start..<start + n] of
        None \<Rightarrow> (Inr None, s')
      | Some j \<Rightarrow> (Inr (Some (j mod length (backends s'))),
                   if j \<noteq> start then s'\<lparr>currentIndex := of_nat (j mod length (backends s'))\<rparr> else s'))"
    using n by (intro GetNextPeer_loop_find) (simp_all add: bs' n_def)
  then show ?thesis
    unfolding G Let_def n_def [symmetric] start_def [symmetric] s'_def [symmetric]
    using neq by (auto simp: bs' n_def [symmetric] F F2 split: option.splits)
qed

lemma GetNextPeer_backends:
  "backends s \<noteq> [] \<Longrightarrow> backends (snd (GetNextPeer s)) = backends s"
  by (simp add: GetNextPeer_find Let_def split: option.splits)

subsection \<open>Peer selection\<close>

text \<open>
  C2. For a pool with at least one backend, \<^verbatim>\<open>GetNextPeer\<close> takes its starting index
  from one call of \<^verbatim>\<open>NextIndex\<close>, scans the \<open>len\<close> consecutive indices from there
  (wrapping modulo \<open>len\<close>, so every backend once) and returns the first one whose
  backend is alive; it returns \<^verbatim>\<open>nil\<close> exactly when no backend of the pool is alive.
  The pool it leaves is the one that this single call of \<^verbatim>\<open>NextIndex\<close> left (the cursor
  advanced once), except that the cursor holds the index of the returned backend when
  that is not the starting index; the backends themselves are as they were.
\<close>

theorem GetNextPeer_first_alive:
  assumes "backends s \<noteq> []"
  shows "(let n = length (backends s);
              start = unat (currentIndex s + 1) mod n
          in fst (NextIndex s) = Inr start \<and>
             length (scan_order n start) = n \<and>
             set (scan_order n start) = {0..<n} \<and>
             hd (scan_order n start) = start \<and>
             fst (GetNextPeer s) =
               Inr (List.find (\<lambda>idx. IsAlive (backends s ! idx)) (scan_order n start)) \<and>
             (fst (GetNextPeer s) = Inr None \<longleftrightarrow> (\<forall>b\<in>set (backends s). \<not> IsAlive b)) \<and>
             backends (snd (GetNextPeer s)) = backends s \<and>
             NextIndex s = (Inr start, s\<lparr>currentIndex := currentIndex s + 1\<rparr>) \<and>
             GetNextPeer s =
               (case List.find (\<lambda>idx. IsAlive (backends s ! idx)) (scan_order n start) of
                  None \<Rightarrow> (Inr None, snd (NextIndex s))
                | Some idx \<Rightarrow>
                    (Inr (Some idx),
                     if idx \<noteq> start then (snd (NextIndex s))\<lparr>currentIndex := of_nat idx\<rparr>
                     else snd (NextIndex s))))"
proof -
  define n where "n = length (backends s)"
  define start where "start = unat (currentIndex s + 1) mod n"
  have n: "0 < n" using assms by (simp add: n_def)
  have st: "start < n" using n by (simp add: start_def)
  have N: "NextIndex s = (Inr start, s\<lparr>currentIndex := currentIndex s + 1\<rparr>)"
    using assms by (simp add: NextIndex_nonempty n_def start_def)
  have a: "fst (NextIndex s) = Inr start" by (simp add: N)
  have b: "length (scan_order n start) = n" by (simp add: scan_order_def)
  have c: "set (scan_order n start) = {0..<n}" using n st by (rule set_scan_order)
  have d: "hd (scan_order n start) = start"
    using n st by (simp add: scan_order_def hd_map upt_conv_Cons)
  have h: "GetNextPeer s =
      (case List.find (\<lambda>idx. IsAlive (backends s ! idx)) (scan_order n start) of
         None \<Rightarrow> (Inr None, snd (NextIndex s))
       | Some idx \<Rightarrow>
           (Inr (Some idx),
            if idx \<noteq> start then (snd (NextIndex s))\<lparr>currentIndex := of_nat idx\<rparr>
            else snd (NextIndex s)))"
  proof -
    have sN: "snd (NextIndex s) = s\<lparr>currentIndex := currentIndex s + 1\<rparr>" by (simp add: N)
    show ?thesis
      by (simp add: GetNextPeer_find [OF assms] Let_def sN n_def start_def split: option.splits)
  qed
  have e: "fst (GetNextPeer s) =
      Inr (List.find (\<lambda>idx. IsAlive (backends s ! idx)) (scan_order n start))"
    by (simp add: h split: option.splits)
  have "(List.find (\<lambda>idx. IsAlive (backends s ! idx)) (scan_order n start) = None)
      \<longleftrightarrow> (\<forall>idx<n. \<not> IsAlive (backends s ! idx))"
    by (auto simp: find_None_iff c)
  also have "\<dots> \<longleftrightarrow> (\<forall>b\<in>set (backends s). \<not> IsAlive b)"
    by (auto simp: all_set_conv_all_nth n_def)
  finally have f: "fst (GetNextPeer s) = Inr None \<longleftrightarrow> (\<forall>b\<in>set (backends s). \<not> IsAlive b)"
    by (simp add: e)
  have g: "backends (snd (GetNextPeer s)) = backends s"
    using assms by (rule GetNextPeer_backends)
  show ?thesis
    unfolding Let_def n_def [symmetric] start_def [symmetric]
    using a b c d e f g N h by blast
qed

theorem GetNextPeer_first_alive_witness:
  "backends (pool_abc 2) \<noteq> [] \<and>
   fst (NextIndex (pool_abc 2)) = Inr 0 \<and>
   scan_order 3 0 = [0, 1, 2] \<and>
   fst (GetNextPeer (pool_abc 2)) = Inr (Some 1) \<and>
   fst (GetNextPeer pool_dead) = Inr None \<and>
   GetNextPeer (pool_abc 2) = (Inr (Some 1), pool_abc 1) \<and>
   GetNextPeer (pool_abc 0) = (Inr (Some 1), pool_abc 1) \<and>
   GetNextPeer pool_dead = (Inr None, pool_dead\<lparr>currentIndex := 1\<rparr>)"
proof -
  have ne: "backends (pool_abc c) \<noteq> []" for c by (simp add: pool_abc_def)
  have ne2: "backends pool_dead \<noteq> []" by (simp add: pool_dead_def)
  have so: "scan_order 3 0 = [0, 1, 2]" by (simp add: scan_order_def upt_conv_Cons)
  have sN: "snd (NextIndex (pool_abc c)) = pool_abc (c + 1)" for c
    by (simp add: NextIndex_def pool_abc_def Let_def)
  have sNd: "snd (NextIndex pool_dead) = pool_dead\<lparr>currentIndex := 1\<rparr>"
    by (simp add: NextIndex_def pool_dead_def Let_def)
  have upd: "pool_abc c\<lparr>currentIndex := d\<rparr> = pool_abc d" for c d by (simp add: pool_abc_def)
  have f2: "List.find (\<lambda>idx. IsAlive (backends (pool_abc 2) ! idx))
        (scan_order (length (backends (pool_abc 2))) 0) = Some 1"
    by (simp add: pool_abc_def scan_order_def upt_conv_Cons IsAlive_def)
  have f0: "List.find (\<lambda>idx. IsAlive (backends (pool_abc 0) ! idx))
        (scan_order (length (backends (pool_abc 0))) 1) = Some 1"
    by (simp add: pool_abc_def scan_order_def upt_conv_Cons IsAlive_def)
  have fd: "List.find (\<lambda>idx. IsAlive (backends pool_dead ! idx))
        (scan_order (length (backends pool_dead)) 1) = None"
    by (simp add: pool_dead_def scan_order_def upt_conv_Cons IsAlive_def)
  have st2: "unat (currentIndex (pool_abc 2) + 1) mod length (backends (pool_abc 2)) = 0"
    by (simp add: pool_abc_def)
  have st0: "unat (currentIndex (pool_abc 0) + 1) mod length (backends (pool_abc 0)) = 1"
    by (simp add: pool_abc_def)
  have std: "unat (currentIndex pool_dead + 1) mod length (backends pool_dead) = 1"
    by (simp add: pool_dead_def)
  note T2 = GetNextPeer_first_alive [OF ne, of 2, unfolded Let_def st2, unfolded f2]
  note T0 = GetNextPeer_first_alive [OF ne, of 0, unfolded Let_def st0, unfolded f0]
  note Td = GetNextPeer_first_alive [OF ne2, unfolded Let_def std, unfolded fd]
  have N2: "fst (NextIndex (pool_abc 2)) = Inr 0" using T2 by blast
  have "GetNextPeer (pool_abc 2) =
      (case Some 1 of None \<Rightarrow> (Inr None, snd (NextIndex (pool_abc 2)))
       | Some idx \<Rightarrow> (Inr (Some idx),
           if idx \<noteq> 0 then (snd (NextIndex (pool_abc 2)))\<lparr>currentIndex := of_nat idx\<rparr>
           else snd (NextIndex (pool_abc 2))))"
    using T2 by blast
  then have G2: "GetNextPeer (pool_abc 2) = (Inr (Some 1), pool_abc 1)"
    by (simp add: sN upd)
  have "GetNextPeer (pool_abc 0) =
      (case Some 1 of None \<Rightarrow> (Inr None, snd (NextIndex (pool_abc 0)))
       | Some idx \<Rightarrow> (Inr (Some idx),
           if idx \<noteq> 1 then (snd (NextIndex (pool_abc 0)))\<lparr>currentIndex := of_nat idx\<rparr>
           else snd (NextIndex (pool_abc 0))))"
    using T0 by blast
  then have G0: "GetNextPeer (pool_abc 0) = (Inr (Some 1), pool_abc 1)"
    by (simp add: sN)
  have "GetNextPeer pool_dead =
      (case None of None \<Rightarrow> (Inr None, snd (NextIndex pool_dead))
       | Some idx \<Rightarrow> (Inr (Some idx),
           if idx \<noteq> 1
           then (snd (NextIndex pool_dead))\<lparr>currentIndex := of_nat idx\<rparr>
           else snd (NextIndex pool_dead)))"
    using Td by blast
  then have Gd: "GetNextPeer pool_dead = (Inr None, pool_dead\<lparr>currentIndex := 1\<rparr>)"
    by (simp add: sNd)
  show ?thesis using ne [of 2] so N2 G2 G0 Gd by simp
qed

lemma unat_add_of_nat: "unat ((c :: 64 word) + of_nat k) = (unat c + k) mod 2 ^ 64"
  by (simp add: unat_word_ariths unat_of_nat mod_add_right_eq)

lemma upt_0_Suc_map: "[0..<Suc n] = 0 # map Suc [0..<n]"
  by (simp add: upt_conv_Cons map_Suc_upt del: upt_Suc)

lemma NextIndex_calls_indices:
  "backends s \<noteq> [] \<Longrightarrow>
   NextIndex_calls n s =
     (map (\<lambda>k. Inr ((unat (currentIndex s) + Suc k) mod 2 ^ 64 mod length (backends s))) [0..<n],
      s\<lparr>currentIndex := currentIndex s + of_nat n\<rparr>)"
proof (induction n arbitrary: s)
  case 0
  then show ?case by simp
next
  case (Suc n)
  define s' where "s' = s\<lparr>currentIndex := currentIndex s + 1\<rparr>"
  define f :: "nat \<Rightarrow> panic + nat"
    where "f = (\<lambda>k. Inr ((unat (currentIndex s) + Suc k) mod 2 ^ 64 mod length (backends s)))"
  have ne': "backends s' \<noteq> []" using Suc.prems by (simp add: s'_def)
  have step: "unat (currentIndex s + 1) = (unat (currentIndex s) + 1) mod 2 ^ 64"
    using unat_add_of_nat [of "currentIndex s" 1] by simp
  have first: "NextIndex s = (f 0, s')"
    using Suc.prems by (simp add: NextIndex_nonempty f_def s'_def step)
  have shift: "(unat (currentIndex s') + Suc k) mod 2 ^ 64 = (unat (currentIndex s) + Suc (Suc k)) mod 2 ^ 64" for k
  proof -
    have "currentIndex s' = currentIndex s + 1" by (simp add: s'_def)
    then have "(unat (currentIndex s') + Suc k) mod 2 ^ 64
        = ((unat (currentIndex s) + 1) mod 2 ^ 64 + Suc k) mod 2 ^ 64"
      by (simp only: step)
    also have "\<dots> = (unat (currentIndex s) + 1 + Suc k) mod 2 ^ 64"
      by (rule mod_add_left_eq)
    finally show ?thesis by simp
  qed
  have rest: "NextIndex_calls n s' = (map (\<lambda>k. f (Suc k)) [0..<n], s\<lparr>currentIndex := currentIndex s + of_nat (Suc n)\<rparr>)"
    unfolding Suc.IH [OF ne'] shift by (simp add: f_def s'_def add.assoc)
  have "NextIndex_calls (Suc n) s = (f 0 # map (\<lambda>k. f (Suc k)) [0..<n], s\<lparr>currentIndex := currentIndex s + of_nat (Suc n)\<rparr>)"
    by (simp only: NextIndex_calls.simps first rest prod.case)
  also have "f 0 # map (\<lambda>k. f (Suc k)) [0..<n] = map f [0..<Suc n]"
    by (simp only: upt_0_Suc_map list.map map_map comp_def)
  finally show ?case by (simp only: f_def)
qed

subsection \<open>Rotation\<close>

text \<open>
  C7. For a pool with at least one backend, a call of \<^verbatim>\<open>NextIndex\<close> adds 1 to the cursor
  (a 64-bit unsigned value, so the sum wraps at \<open>2 ^ 64\<close>) and returns the new cursor
  modulo \<open>len\<close>. \<open>n\<close> successive calls from the cursor \<open>c\<close> return
  \<open>(c + 1) mod len\<close>, \<open>(c + 2) mod len\<close>, ..., with \<open>c + k\<close> taken modulo \<open>2 ^ 64\<close>, and
  leave the cursor at \<open>c + n\<close>. The indices do not depend on the alive flags: a pool
  with the same backends and other flags gives the same indices.
\<close>

theorem NextIndex_round_robin:
  assumes "backends s \<noteq> []"
  shows "NextIndex s =
           (Inr (unat (currentIndex s + 1) mod length (backends s)),
            s\<lparr>currentIndex := currentIndex s + 1\<rparr>) \<and>
         unat (currentIndex s + 1) = (unat (currentIndex s) + 1) mod 2 ^ 64 \<and>
         NextIndex_calls n s =
           (map (\<lambda>k. Inr ((unat (currentIndex s) + Suc k) mod 2 ^ 64 mod length (backends s)))
              [0..<n],
            s\<lparr>currentIndex := currentIndex s + of_nat n\<rparr>) \<and>
         fst (NextIndex_calls n (s\<lparr>backends := map (\<lambda>b. SetAlive b (alive b)) (backends s)\<rparr>)) =
           fst (NextIndex_calls n s)"
proof -
  let ?t = "s\<lparr>backends := map (\<lambda>b. SetAlive b (alive b)) (backends s)\<rparr>"
  have ne: "backends ?t \<noteq> []" using assms by simp
  have "unat (currentIndex s + 1) = (unat (currentIndex s) + 1) mod 2 ^ 64"
    using unat_add_of_nat [of "currentIndex s" 1] by simp
  moreover have "fst (NextIndex_calls n ?t) = fst (NextIndex_calls n s)"
    by (simp add: NextIndex_calls_indices [OF ne] NextIndex_calls_indices [OF assms])
  ultimately show ?thesis
    using NextIndex_nonempty [OF assms] NextIndex_calls_indices [OF assms, of n] by simp
qed

theorem NextIndex_round_robin_witness:
  "backends (pool_abc 2) \<noteq> [] \<and>
   NextIndex (pool_abc 2) = (Inr 0, pool_abc 3) \<and>
   NextIndex_calls 4 (pool_abc 2) = ([Inr 0, Inr 1, Inr 2, Inr 0], pool_abc 6) \<and>
   fst (NextIndex_calls 3 (pool_abc 18446744073709551614)) = [Inr 0, Inr 0, Inr 1]"
proof -
  have ne: "backends (pool_abc c) \<noteq> []" for c by (simp add: pool_abc_def)
  have upd: "pool_abc c\<lparr>currentIndex := d\<rparr> = pool_abc d" for c d by (simp add: pool_abc_def)
  have len: "length (backends (pool_abc c)) = 3" for c by (simp add: pool_abc_def)
  have cur: "currentIndex (pool_abc c) = c" for c by (simp add: pool_abc_def)
  have u4: "[0..<4] = [0, 1, 2, 3]" by (simp add: upt_conv_Cons)
  have u3: "[0..<3] = [0, 1, 2]" by (simp add: upt_conv_Cons)
  have a: "NextIndex (pool_abc 2) = (Inr 0, pool_abc 3)"
    using NextIndex_round_robin [OF ne, of 2 0] by (simp add: upd len cur)
  have b: "NextIndex_calls 4 (pool_abc 2) = ([Inr 0, Inr 1, Inr 2, Inr 0], pool_abc 6)"
    using NextIndex_round_robin [OF ne, of 2 4] by (simp add: upd len cur u4)
  have c: "fst (NextIndex_calls 3 (pool_abc 18446744073709551614)) = [Inr 0, Inr 0, Inr 1]"
    using NextIndex_round_robin [OF ne, of 18446744073709551614 3] by (simp add: upd len cur u3)
  show ?thesis using ne a b c by simp
qed

subsection \<open>Status by address\<close>

text \<open>
  C6. \<^verbatim>\<open>MarkBackendStatus(u, v)\<close> leaves the pool as it is when no backend has the
  address text of \<open>u\<close>; otherwise it sets the alive flag of the first backend whose
  address text equals that of \<open>u\<close> to \<open>v\<close> and changes nothing else (neither another
  backend nor the cursor). Calling it twice with the same arguments gives the same pool
  as calling it once.
\<close>

theorem MarkBackendStatus_first_match:
  "((\<forall>b\<in>set (backends s). URL_String (URL b) \<noteq> URL_String u) \<longrightarrow>
      MarkBackendStatus s u v = s) \<and>
   (\<forall>i<length (backends s).
      URL_String (URL (backends s ! i)) = URL_String u \<and>
      (\<forall>j<i. URL_String (URL (backends s ! j)) \<noteq> URL_String u) \<longrightarrow>
        MarkBackendStatus s u v = s\<lparr>backends := (backends s)[i := SetAlive (backends s ! i) v]\<rparr> \<and>
        IsAlive (backends (MarkBackendStatus s u v) ! i) = v) \<and>
   MarkBackendStatus (MarkBackendStatus s u v) u v = MarkBackendStatus s u v"
proof (intro conjI allI impI)
  assume "\<forall>b\<in>set (backends s). URL_String (URL b) \<noteq> URL_String u"
  then show "MarkBackendStatus s u v = s"
    by (simp add: MarkBackendStatus_def MarkBackendStatus_loop_nomatch)
next
  fix i
  assume i: "i < length (backends s)"
    and m: "URL_String (URL (backends s ! i)) = URL_String u \<and>
            (\<forall>j<i. URL_String (URL (backends s ! j)) \<noteq> URL_String u)"
  then have eq: "MarkBackendStatus_loop (backends s) u v = (backends s)[i := SetAlive (backends s ! i) v]"
    by (intro MarkBackendStatus_loop_first) auto
  show "MarkBackendStatus s u v = s\<lparr>backends := (backends s)[i := SetAlive (backends s ! i) v]\<rparr>"
    by (simp add: MarkBackendStatus_def eq)
  show "IsAlive (backends (MarkBackendStatus s u v) ! i) = v"
    using i by (simp add: MarkBackendStatus_def eq IsAlive_def SetAlive_def)
next
  show "MarkBackendStatus (MarkBackendStatus s u v) u v = MarkBackendStatus s u v"
    by (simp add: MarkBackendStatus_def MarkBackendStatus_loop_idem)
qed

theorem MarkBackendStatus_first_match_witness:
  "MarkBackendStatus (pool_abc 0) url_z False = pool_abc 0 \<and>
   backends (MarkBackendStatus (pool_abc 0) url_b False) =
     [\<lparr>URL = url_a, Alive = False, ReverseProxy = url_a\<rparr>,
      \<lparr>URL = url_b, Alive = False, ReverseProxy = url_b\<rparr>,
      \<lparr>URL = url_c, Alive = True, ReverseProxy = url_c\<rparr>] \<and>
   MarkBackendStatus (MarkBackendStatus (pool_abc 0) url_b False) url_b False =
     MarkBackendStatus (pool_abc 0) url_b False"
proof -
  note T = MarkBackendStatus_first_match
  have a: "MarkBackendStatus (pool_abc 0) url_z False = pool_abc 0"
    using T [of "pool_abc 0" url_z False]
    by (simp add: pool_abc_def url_a_def url_b_def url_c_def url_z_def)
  have "1 < length (backends (pool_abc 0)) \<and>
      URL_String (URL (backends (pool_abc 0) ! 1)) = URL_String url_b \<and>
      (\<forall>j<1. URL_String (URL (backends (pool_abc 0) ! j)) \<noteq> URL_String url_b)"
    by (simp add: pool_abc_def url_a_def url_b_def)
  with T [of "pool_abc 0" url_b False]
  have "MarkBackendStatus (pool_abc 0) url_b False =
      (pool_abc 0)\<lparr>backends := (backends (pool_abc 0))[1 := SetAlive (backends (pool_abc 0) ! 1) False]\<rparr>"
    by blast
  then have b: "backends (MarkBackendStatus (pool_abc 0) url_b False) =
     [\<lparr>URL = url_a, Alive = False, ReverseProxy = url_a\<rparr>,
      \<lparr>URL = url_b, Alive = False, ReverseProxy = url_b\<rparr>,
      \<lparr>URL = url_c, Alive = True, ReverseProxy = url_c\<rparr>]"
    by (simp add: pool_abc_def SetAlive_def)
  have c: "MarkBackendStatus (MarkBackendStatus (pool_abc 0) url_b False) url_b False =
     MarkBackendStatus (pool_abc 0) url_b False"
    using T [of "pool_abc 0" url_b False] by blast
  show ?thesis using a b c by simp
qed

lemma NextIndex_cursor: "currentIndex (snd (NextIndex s)) = currentIndex s + 1"
  by (simp add: NextIndex_def Let_def)

lemma counter_reads_no_fast_forward:
  "no_fast_forward ops s \<Longrightarrow>
   counter_reads ops s = map (\<lambda>k. currentIndex s + of_nat (Suc k)) [0..<length ops]"
proof (induction ops arbitrary: s)
  case Nil
  then show ?case by simp
next
  case (Cons op ops)
  define s' where "s' = (case op of CallNextIndex \<Rightarrow> snd (NextIndex s) | CallGetNextPeer \<Rightarrow> snd (GetNextPeer s))"
  have nf: "no_fast_forward ops s'" and cur: "currentIndex s' = currentIndex s + 1"
    using Cons.prems by (cases op; simp add: s'_def NextIndex_cursor)+
  have "counter_reads (op # ops) s = (currentIndex s + 1) # counter_reads ops s'"
    by (cases op) (simp_all add: s'_def NextIndex_cursor)
  also have "\<dots> = (currentIndex s + 1) # map (\<lambda>k. currentIndex s + 1 + of_nat (Suc k)) [0..<length ops]"
    by (simp add: Cons.IH [OF nf] cur)
  also have "\<dots> = map (\<lambda>k. currentIndex s + of_nat (Suc k)) [0..<length (op # ops)]"
    by (simp only: length_Cons upt_0_Suc_map list.map map_map comp_def) (simp add: add.assoc)
  finally show ?case .
qed

lemma sorted_wrt_map_upt:
  "(\<And>i j. i < j \<Longrightarrow> j < n \<Longrightarrow> f i < f j) \<Longrightarrow> sorted_wrt (<) (map f [0..<n])"
  by (simp add: sorted_wrt_map sorted_wrt_iff_nth_less)

lemma word_add_of_nat_less:
  assumes "unat (c :: 64 word) + j < 2 ^ 64" "i < j"
  shows "c + of_nat i < c + of_nat j"
proof -
  have "unat (c + of_nat i) = unat c + i" using assms by (simp add: unat_add_of_nat)
  moreover have "unat (c + of_nat j) = unat c + j" using assms by (simp add: unat_add_of_nat)
  ultimately show ?thesis using assms by (simp add: word_less_nat_alt)
qed

lemma GetNextPeer_cursor:
  assumes "backends s \<noteq> []"
  shows "currentIndex (snd (GetNextPeer s)) = currentIndex s + 1 \<or>
         (\<exists>idx<length (backends s). fst (GetNextPeer s) = Inr (Some idx) \<and>
            idx \<noteq> unat (currentIndex s + 1) mod length (backends s) \<and>
            currentIndex (snd (GetNextPeer s)) = of_nat idx)"
proof -
  let ?n = "length (backends s)"
  let ?start = "unat (currentIndex s + 1) mod ?n"
  have n: "0 < ?n" using assms by simp
  show ?thesis
  proof (cases "List.find (\<lambda>idx. IsAlive (backends s ! idx)) (scan_order ?n ?start)")
    case None
    then show ?thesis by (simp add: GetNextPeer_find [OF assms] Let_def)
  next
    case (Some idx)
    then have "idx \<in> set (scan_order ?n ?start)" by (auto simp: find_Some_iff)
    then have "idx < ?n" using n by (auto simp: scan_order_def)
    with Some show ?thesis by (simp add: GetNextPeer_find [OF assms] Let_def)
  qed
qed

lemma GetNextPeer_cursor_exact:
  assumes "backends s \<noteq> []"
  shows "(\<forall>idx. fst (GetNextPeer s) = Inr (Some idx) \<and>
              idx \<noteq> unat (currentIndex s + 1) mod length (backends s) \<longrightarrow>
            idx < length (backends s) \<and> currentIndex (snd (GetNextPeer s)) = of_nat idx) \<and>
         (fst (GetNextPeer s) = Inr (Some (unat (currentIndex s + 1) mod length (backends s))) \<or>
          fst (GetNextPeer s) = Inr None \<longrightarrow>
            currentIndex (snd (GetNextPeer s)) = currentIndex s + 1)"
proof -
  let ?n = "length (backends s)"
  let ?start = "unat (currentIndex s + 1) mod ?n"
  have n: "0 < ?n" using assms by simp
  show ?thesis
  proof (cases "List.find (\<lambda>idx. IsAlive (backends s ! idx)) (scan_order ?n ?start)")
    case None
    then show ?thesis by (simp add: GetNextPeer_find [OF assms] Let_def)
  next
    case (Some idx)
    then have "idx \<in> set (scan_order ?n ?start)" by (auto simp: find_Some_iff)
    then have "idx < ?n" using n by (auto simp: scan_order_def)
    with Some show ?thesis by (simp add: GetNextPeer_find [OF assms] Let_def)
  qed
qed

subsection \<open>The rotation counter over time\<close>

text \<open>
  The claim C3 as stated: over every sequence of \<^verbatim>\<open>NextIndex\<close> and \<^verbatim>\<open>GetNextPeer\<close> calls,
  each read of the rotation counter is strictly greater than every earlier one. It
  fails in the scenario pool (A dead, B and C alive) from the cursor 2: \<^verbatim>\<open>GetNextPeer\<close>
  reads 3, finds A dead at index 0 and B alive at index 1, and stores 1 in the cursor;
  the next call reads 2.
\<close>

theorem counter_reads_not_increasing:
  "\<not> sorted_wrt (<) (counter_reads [CallGetNextPeer, CallNextIndex] (pool_abc 2))"
  by (simp add: pool_abc_def NextIndex_def GetNextPeer_def GetNextPeer_loop.simps IsAlive_def Let_def)

text \<open>
  C3, amended. The reads are strictly increasing over every sequence of calls in which
  no \<^verbatim>\<open>GetNextPeer\<close> fast-forwards the cursor and the counter does not pass \<open>2 ^ 64\<close>.
  A \<^verbatim>\<open>GetNextPeer\<close> on a pool with a backend that returns a backend other than the one
  at its starting index stores the index of that backend, which is below \<open>len\<close>, in the
  cursor; one that returns the backend at its starting index, or none, leaves the cursor
  one above its old value.
\<close>

theorem counter_reads_increasing:
  "(no_fast_forward ops s \<and> unat (currentIndex s) + length ops < 2 ^ 64 \<longrightarrow>
      sorted_wrt (<) (counter_reads ops s)) \<and>
   (backends s \<noteq> [] \<longrightarrow>
      (currentIndex (snd (GetNextPeer s)) = currentIndex s + 1 \<or>
       (\<exists>idx<length (backends s). fst (GetNextPeer s) = Inr (Some idx) \<and>
          idx \<noteq> unat (currentIndex s + 1) mod length (backends s) \<and>
          currentIndex (snd (GetNextPeer s)) = of_nat idx)) \<and>
      (\<forall>idx. fst (GetNextPeer s) = Inr (Some idx) \<and>
           idx \<noteq> unat (currentIndex s + 1) mod length (backends s) \<longrightarrow>
         idx < length (backends s) \<and> currentIndex (snd (GetNextPeer s)) = of_nat idx) \<and>
      (fst (GetNextPeer s) = Inr (Some (unat (currentIndex s + 1) mod length (backends s))) \<or>
       fst (GetNextPeer s) = Inr None \<longrightarrow>
         currentIndex (snd (GetNextPeer s)) = currentIndex s + 1))"
proof (intro conjI impI)
  assume a: "no_fast_forward ops s \<and> unat (currentIndex s) + length ops < 2 ^ 64"
  then have reads: "counter_reads ops s = map (\<lambda>k. currentIndex s + of_nat (Suc k)) [0..<length ops]"
    by (simp add: counter_reads_no_fast_forward)
  show "sorted_wrt (<) (counter_reads ops s)"
    unfolding reads
  proof (rule sorted_wrt_map_upt)
    fix i j assume "i < j" "j < length ops"
    then show "currentIndex s + of_nat (Suc i) < currentIndex s + of_nat (Suc j)"
      using a by (intro word_add_of_nat_less) simp_all
  qed
next
  assume "backends s \<noteq> []"
  then show "currentIndex (snd (GetNextPeer s)) = currentIndex s + 1 \<or>
      (\<exists>idx<length (backends s). fst (GetNextPeer s) = Inr (Some idx) \<and>
         idx \<noteq> unat (currentIndex s + 1) mod length (backends s) \<and>
         currentIndex (snd (GetNextPeer s)) = of_nat idx)"
    by (rule GetNextPeer_cursor)
next
  assume ne: "backends s \<noteq> []"
  show "\<forall>idx. fst (GetNextPeer s) = Inr (Some idx) \<and>
           idx \<noteq> unat (currentIndex s + 1) mod length (backends s) \<longrightarrow>
         idx < length (backends s) \<and> currentIndex (snd (GetNextPeer s)) = of_nat idx"
    using GetNextPeer_cursor_exact [OF ne] by blast
next
  assume ne: "backends s \<noteq> []"
    and "fst (GetNextPeer s) = Inr (Some (unat (currentIndex s + 1) mod length (backends s))) \<or>
       fst (GetNextPeer s) = Inr None"
  then show "currentIndex (snd (GetNextPeer s)) = currentIndex s + 1"
    using GetNextPeer_cursor_exact [OF ne] by blast
qed

theorem counter_reads_increasing_witness:
  "no_fast_forward [CallGetNextPeer, CallNextIndex] (pool_abc 0) \<and>
   sorted_wrt (<) (counter_reads [CallGetNextPeer, CallNextIndex] (pool_abc 0)) \<and>
   backends (pool_abc 2) \<noteq> [] \<and>
   fst (GetNextPeer (pool_abc 2)) = Inr (Some 1) \<and>
   currentIndex (snd (GetNextPeer (pool_abc 2))) = 1 \<and>
   fst (GetNextPeer (pool_abc 0)) = Inr (Some 1) \<and>
   currentIndex (snd (GetNextPeer (pool_abc 0))) = 1"
proof -
  note T = counter_reads_increasing
  have G0: "fst (GetNextPeer (pool_abc 0)) = Inr (Some 1)"
    by (simp add: pool_abc_def NextIndex_def GetNextPeer_def GetNextPeer_loop.simps IsAlive_def Let_def)
  have G2: "fst (GetNextPeer (pool_abc 2)) = Inr (Some 1)"
    by (simp add: pool_abc_def NextIndex_def GetNextPeer_def GetNextPeer_loop.simps IsAlive_def Let_def)
  have cur: "currentIndex (pool_abc c) = c" for c by (simp add: pool_abc_def)
  have ne: "backends (pool_abc c) \<noteq> []" for c by (simp add: pool_abc_def)
  have len: "length (backends (pool_abc c)) = 3" for c by (simp add: pool_abc_def)
  have st2: "(1::nat) \<noteq> unat (currentIndex (pool_abc 2) + 1) mod length (backends (pool_abc 2))"
    by (simp add: cur len)
  have st0: "unat (currentIndex (pool_abc 0) + 1) mod length (backends (pool_abc 0)) = 1"
    by (simp add: cur len)
  have c2: "currentIndex (snd (GetNextPeer (pool_abc 2))) = 1"
    using T [of "[]" "pool_abc 2"] ne [of 2] G2 st2 by auto
  have c0: "currentIndex (snd (GetNextPeer (pool_abc 0))) = 1"
    using T [of "[]" "pool_abc 0"] ne [of 0] G0 st0 by (simp add: cur)
  have nf: "no_fast_forward [CallGetNextPeer, CallNextIndex] (pool_abc 0)"
    by (simp add: c0 cur)
  have "unat (currentIndex (pool_abc 0)) + length [CallGetNextPeer, CallNextIndex] < 2 ^ 64"
    by (simp add: cur)
  with nf T [of "[CallGetNextPeer, CallNextIndex]" "pool_abc 0"]
  have "sorted_wrt (<) (counter_reads [CallGetNextPeer, CallNextIndex] (pool_abc 0))"
    by blast
  with nf ne [of 2] G2 c2 G0 c0 show ?thesis by simp
qed

lemma Get_after_WithValue_Retry:
  "GetRetryFromContext (WithContext r (WithValue (Context r) Retry (IntVal n))) = n"
  "GetAttemptsFromContext (WithContext r (WithValue (Context r) Retry (IntVal n))) = GetAttemptsFromContext r"
  by (simp_all add: GetRetryFromContext_def GetAttemptsFromContext_def WithContext_def
      WithValue_def Value_def Retry_def Attempt_def)

lemma Get_after_WithValue_Attempt:
  "GetAttemptsFromContext (WithContext r (WithValue (Context r) Attempt (IntVal n))) = n"
  "GetRetryFromContext (WithContext r (WithValue (Context r) Attempt (IntVal n))) = GetRetryFromContext r"
  by (simp_all add: GetRetryFromContext_def GetAttemptsFromContext_def WithContext_def
      WithValue_def Value_def Retry_def Attempt_def)

subsection \<open>Request router\<close>

text \<open>
  C4. The attempts count of a request is 0 when its context has none. When it is above
  3, \<^verbatim>\<open>lb\<close> answers 503 and the pool is as before: the cursor has not moved, so
  \<^verbatim>\<open>GetNextPeer\<close> was not called, and no delivery was attempted. When it is at most 3 and
  \<^verbatim>\<open>GetNextPeer\<close> returns \<^verbatim>\<open>nil\<close>, \<^verbatim>\<open>lb\<close> answers 503. When a peer is returned, the
  outcome of \<^verbatim>\<open>lb\<close> is that of the peer's reverse proxy on the same request, with
  nothing added by \<^verbatim>\<open>lb\<close>: a delivery that succeeds is the only event.
\<close>

theorem lb_routes:
  "(Value (Context r) Attempt = None \<longrightarrow> GetAttemptsFromContext r = 0) \<and>
   (3 <s GetAttemptsFromContext r \<longrightarrow>
      lb outs s r =
        Some (Returned, s, [HttpError ''Service not available'' StatusServiceUnavailable])) \<and>
   (\<not> 3 <s GetAttemptsFromContext r \<longrightarrow>
      (\<forall>s'. GetNextPeer s = (Inr None, s') \<longrightarrow>
         lb outs s r =
           Some (Returned, s', [HttpError ''Service Not Available'' StatusServiceUnavailable])) \<and>
      (\<forall>peer s'. GetNextPeer s = (Inr (Some peer), s') \<longrightarrow>
         lb outs s r = ServeHTTP outs s' (ReverseProxy (backends s' ! peer)) r \<and>
         lb (Delivers # outs) s r =
           Some (Returned, s', [RoundTrip (ReverseProxy (backends s' ! peer)) r True])))"
  by (simp add: lb.simps Let_def GetAttemptsFromContext_def)

theorem lb_routes_witness:
  "lb [Delivers] (pool_abc 0) req_attempts4 =
     Some (Returned, pool_abc 0, [HttpError ''Service not available'' 503]) \<and>
   lb [Delivers] pool_dead (req []) =
     Some (Returned, pool_dead\<lparr>currentIndex := 1\<rparr>, [HttpError ''Service Not Available'' 503]) \<and>
   lb [Delivers] (pool_abc 0) (req []) =
     Some (Returned, pool_abc 1, [RoundTrip url_b (req []) True])"
proof -
  note T = lb_routes
  have a4: "3 <s GetAttemptsFromContext req_attempts4"
    by (simp add: req_attempts4_def req_def GetAttemptsFromContext_def Value_def Attempt_def word_sless_alt)
  have a0: "\<not> 3 <s GetAttemptsFromContext (req [])"
    by (simp add: req_def GetAttemptsFromContext_def Value_def word_sless_alt)
  have Gd: "GetNextPeer pool_dead = (Inr None, pool_dead\<lparr>currentIndex := 1\<rparr>)"
    by (simp add: pool_dead_def NextIndex_def GetNextPeer_def GetNextPeer_loop.simps IsAlive_def Let_def)
  have G0: "GetNextPeer (pool_abc 0) = (Inr (Some 1), pool_abc 1)"
    by (simp add: pool_abc_def NextIndex_def GetNextPeer_def GetNextPeer_loop.simps IsAlive_def Let_def)
  have a: "lb [Delivers] (pool_abc 0) req_attempts4 =
     Some (Returned, pool_abc 0, [HttpError ''Service not available'' 503])"
    using T [of req_attempts4 "[Delivers]" "pool_abc 0"] a4
    by (simp add: StatusServiceUnavailable_def)
  have b: "lb [Delivers] pool_dead (req []) =
     Some (Returned, pool_dead\<lparr>currentIndex := 1\<rparr>, [HttpError ''Service Not Available'' 503])"
    using T [of "req []" "[Delivers]" pool_dead] a0 Gd
    by (simp add: StatusServiceUnavailable_def)
  have c: "lb [Delivers] (pool_abc 0) (req []) =
     Some (Returned, pool_abc 1, [RoundTrip url_b (req []) True])"
    using T [of "req []" "[]" "pool_abc 0"] a0 G0
    by (simp add: pool_abc_def)
  show ?thesis using a b c by simp
qed

subsection \<open>Retry and attempt controller\<close>

text \<open>
  C1. A delivery that fails calls the error handler of the same proxy. When the retries
  count of the request is above 3, the handler waits 10 milliseconds and calls the same
  proxy again with a request whose retries count is one more (the attempts count as
  before). Otherwise it marks the peer dead with \<^verbatim>\<open>MarkBackendStatus\<close> and calls \<^verbatim>\<open>lb\<close>
  on the resulting pool with a request whose attempts count is one more.
\<close>

theorem ErrorHandler_retry_or_reroute:
  "ServeHTTP (Fails e # outs) s serverUrl r =
     emit [RoundTrip serverUrl r False] (ErrorHandler outs s serverUrl r e) \<and>
   (3 <s GetRetryFromContext r \<longrightarrow>
      (let r' = WithContext r (WithValue (Context r) Retry (IntVal (GetRetryFromContext r + 1)))
       in ErrorHandler outs s serverUrl r e = emit [After 10] (ServeHTTP outs s serverUrl r') \<and>
          GetRetryFromContext r' = GetRetryFromContext r + 1 \<and>
          GetAttemptsFromContext r' = GetAttemptsFromContext r)) \<and>
   (\<not> 3 <s GetRetryFromContext r \<longrightarrow>
      (let r' = WithContext r (WithValue (Context r) Attempt (IntVal (GetAttemptsFromContext r + 1)))
       in ErrorHandler outs s serverUrl r e = lb outs (MarkBackendStatus s serverUrl False) r' \<and>
          GetAttemptsFromContext r' = GetAttemptsFromContext r + 1))"
  by (simp add: ErrorHandler.simps Let_def Get_after_WithValue_Retry Get_after_WithValue_Attempt)

theorem ErrorHandler_retry_or_reroute_witness:
  "ErrorHandler [Delivers] (pool_bc True 0) url_b (req [(Retry, IntVal 5)]) ''refused'' =
     Some (Returned, pool_bc True 0,
           [After 10, RoundTrip url_b (req [(Retry, IntVal 6), (Retry, IntVal 5)]) True]) \<and>
   ErrorHandler [Delivers] (pool_bc True 0) url_b (req []) ''refused'' =
     Some (Returned, pool_bc False 2,
           [RoundTrip url_c (req [(Attempt, IntVal 1)]) True])"
proof -
  note T = ErrorHandler_retry_or_reroute
  have r5: "3 <s GetRetryFromContext (req [(Retry, IntVal 5)])"
    by (simp add: req_def GetRetryFromContext_def Value_def word_sless_alt)
  have r0: "\<not> 3 <s GetRetryFromContext (req [])"
    by (simp add: req_def GetRetryFromContext_def Value_def word_sless_alt)
  have w5: "WithContext (req [(Retry, IntVal 5)])
        (WithValue (Context (req [(Retry, IntVal 5)])) Retry
           (IntVal (GetRetryFromContext (req [(Retry, IntVal 5)]) + 1)))
      = req [(Retry, IntVal 6), (Retry, IntVal 5)]"
    by (simp add: req_def WithContext_def WithValue_def GetRetryFromContext_def Value_def)
  have w0: "WithContext (req [])
        (WithValue (Context (req [])) Attempt (IntVal (GetAttemptsFromContext (req []) + 1)))
      = req [(Attempt, IntVal 1)]"
    by (simp add: req_def WithContext_def WithValue_def GetAttemptsFromContext_def Value_def)
  have M: "MarkBackendStatus (pool_bc True 0) url_b False = pool_bc False 0"
    by (simp add: pool_bc_def MarkBackendStatus_def SetAlive_def url_a_def url_b_def)
  have L: "lb [Delivers] (pool_bc False 0) (req [(Attempt, IntVal 1)]) =
      Some (Returned, pool_bc False 2, [RoundTrip url_c (req [(Attempt, IntVal 1)]) True])"
    by (simp add: lb.simps req_def GetAttemptsFromContext_def Value_def word_sless_alt
        pool_bc_def NextIndex_def GetNextPeer_def GetNextPeer_loop.simps IsAlive_def Let_def)
  have a: "ErrorHandler [Delivers] (pool_bc True 0) url_b (req [(Retry, IntVal 5)]) ''refused'' =
     Some (Returned, pool_bc True 0,
           [After 10, RoundTrip url_b (req [(Retry, IntVal 6), (Retry, IntVal 5)]) True])"
    using T [of "''refused''" "[Delivers]" "pool_bc True 0" url_b "req [(Retry, IntVal 5)]"] r5
    by (simp add: Let_def w5 emit_def)
  have b: "ErrorHandler [Delivers] (pool_bc True 0) url_b (req []) ''refused'' =
     Some (Returned, pool_bc False 2, [RoundTrip url_c (req [(Attempt, IntVal 1)]) True])"
    using T [of "''refused''" "[Delivers]" "pool_bc True 0" url_b "req []"] r0
    by (simp add: Let_def w0 M L)
  show ?thesis using a b by simp
qed

lemma emit_Some:
  "emit xs res = Some (st, s', es) \<longleftrightarrow> (\<exists>es'. res = Some (st, s', es') \<and> es = xs @ es')"
  by (auto simp: emit_def split: option.splits)

lemma retry_free_run:
  "Value (Context r) Retry = None \<longrightarrow>
     (\<forall>st s' es. lb outs s r = Some (st, s', es) \<longrightarrow> list_all retry_free es)"
  "Value (Context r1) Retry = None \<longrightarrow>
     (\<forall>st s' es. ServeHTTP outs1 s1 u1 r1 = Some (st, s', es) \<longrightarrow> list_all retry_free es)"
  "Value (Context r2) Retry = None \<longrightarrow>
     (\<forall>st s' es. ErrorHandler outs2 s2 u2 r2 e2 = Some (st, s', es) \<longrightarrow> list_all retry_free es)"
proof (induction outs s r and outs1 s1 u1 r1 and outs2 s2 u2 r2 e2
       rule: lb_ServeHTTP_ErrorHandler.induct)
  case (1 outs s r)
  show ?case
  proof (intro impI allI)
    fix st s' es
    assume nr: "Value (Context r) Retry = None" and res: "lb outs s r = Some (st, s', es)"
    show "list_all retry_free es"
    proof (cases "3 <s GetAttemptsFromContext r")
      case True
      with res show ?thesis by (auto simp: lb.simps Let_def)
    next
      case False
      obtain x y where g: "GetNextPeer s = (x, y)" by (cases "GetNextPeer s")
      show ?thesis
      proof (cases x)
        case (Inl p)
        with res False g show ?thesis by (auto simp: lb.simps Let_def)
      next
        case (Inr b)
        show ?thesis
        proof (cases b)
          case None
          with res False g Inr show ?thesis by (auto simp: lb.simps Let_def)
        next
          case (Some peer)
          with res False g Inr
          have "ServeHTTP outs y (ReverseProxy (backends y ! peer)) r = Some (st, s', es)"
            by (simp add: lb.simps Let_def)
          with "1.IH" [OF refl False g [symmetric] Inr Some] nr show ?thesis by blast
        qed
      qed
    qed
  qed
next
  case (2 s serverUrl r)
  show ?case by simp
next
  case (3 outs s serverUrl r)
  show ?case by auto
next
  case (4 e outs s serverUrl r)
  then show ?case by (auto simp: emit_Some)
next
  case (5 outs s serverUrl r e)
  show ?case
  proof (intro impI allI)
    fix st s' es
    assume nr: "Value (Context r) Retry = None"
      and res: "ErrorHandler outs s serverUrl r e = Some (st, s', es)"
    from nr have r0: "GetRetryFromContext r = 0" by (simp add: GetRetryFromContext_def)
    then have n3: "\<not> 3 <s GetRetryFromContext r" by (simp add: word_sless_alt)
    let ?r' = "WithContext r (WithValue (Context r) Attempt (IntVal (GetAttemptsFromContext r + 1)))"
    have nr': "Value (Context ?r') Retry = None"
      using nr by (simp add: WithContext_def WithValue_def Value_def Retry_def Attempt_def)
    from res n3 have "lb outs (MarkBackendStatus s serverUrl False) ?r' = Some (st, s', es)"
      by (simp add: ErrorHandler.simps Let_def)
    with "5.IH"(2) [OF refl n3 refl refl] nr' show "list_all retry_free es" by blast
  qed
qed

subsection \<open>Retries of a rerouted request\<close>

text \<open>
  C5. A request that enters the server carries no retries value, and the reroute branch
  attaches only the new attempts count. So a failing request without retries value
  carries the count 0 and is handled by the reroute branch, the request that the branch
  hands to \<^verbatim>\<open>lb\<close> again carries no retries value and so the count 0, and in the whole
  run of \<^verbatim>\<open>lb\<close> on such a request every request that is forwarded carries no retries
  value and no retry wait occurs: each new peer starts at the retries count 0.
\<close>

theorem reroute_fresh_retries:
  "Value (Context r) Retry = None \<longrightarrow>
     (let r' = WithContext r (WithValue (Context r) Attempt (IntVal (GetAttemptsFromContext r + 1)))
      in GetRetryFromContext r = 0 \<and>
         ErrorHandler outs s serverUrl r e = lb outs (MarkBackendStatus s serverUrl False) r' \<and>
         Value (Context r') Retry = None \<and>
         GetRetryFromContext r' = 0) \<and>
     (\<forall>st s' es. lb outs s r = Some (st, s', es) \<longrightarrow> list_all retry_free es)"
proof
  assume nr: "Value (Context r) Retry = None"
  let ?r' = "WithContext r (WithValue (Context r) Attempt (IntVal (GetAttemptsFromContext r + 1)))"
  from nr have r0: "GetRetryFromContext r = 0" by (simp add: GetRetryFromContext_def)
  then have n3: "\<not> 3 <s GetRetryFromContext r" by (simp add: word_sless_alt)
  have nr': "Value (Context ?r') Retry = None"
    using nr by (simp add: WithContext_def WithValue_def Value_def Retry_def Attempt_def)
  then have r0': "GetRetryFromContext ?r' = 0" by (simp add: GetRetryFromContext_def)
  have eq: "ErrorHandler outs s serverUrl r e = lb outs (MarkBackendStatus s serverUrl False) ?r'"
    using n3 by (simp add: ErrorHandler.simps Let_def)
  have run: "\<forall>st s' es. lb outs s r = Some (st, s', es) \<longrightarrow> list_all retry_free es"
    using retry_free_run(1) [of r outs s] nr by blast
  show "(let r' = WithContext r (WithValue (Context r) Attempt (IntVal (GetAttemptsFromContext r + 1)))
      in GetRetryFromContext r = 0 \<and>
         ErrorHandler outs s serverUrl r e = lb outs (MarkBackendStatus s serverUrl False) r' \<and>
         Value (Context r') Retry = None \<and>
         GetRetryFromContext r' = 0) \<and>
     (\<forall>st s' es. lb outs s r = Some (st, s', es) \<longrightarrow> list_all retry_free es)"
    unfolding Let_def using r0 eq nr' r0' run by blast
qed

theorem reroute_fresh_retries_witness:
  "Value (Context req_inbound) Retry = None \<and>
   ErrorHandler [Delivers] (pool_bc True 0) url_b req_inbound ''refused'' =
     Some (Returned, pool_bc False 2, [RoundTrip url_c req_inbound_rerouted True]) \<and>
   GetRetryFromContext req_inbound_rerouted = 0 \<and>
   lb [Fails ''refused'', Delivers] (pool_bc True 0) req_inbound =
     Some (Returned, pool_bc False 2,
           [RoundTrip url_b req_inbound False, RoundTrip url_c req_inbound_rerouted True]) \<and>
   list_all retry_free
     [RoundTrip url_b req_inbound False, RoundTrip url_c req_inbound_rerouted True]"
proof -
  note T = reroute_fresh_retries [of req_inbound _ "pool_bc True 0" url_b "''refused''", unfolded Let_def]
  have nr: "Value (Context req_inbound) Retry = None"
    by (simp add: req_inbound_def req_def Value_def Retry_def)
  have w: "WithContext req_inbound
        (WithValue (Context req_inbound) Attempt (IntVal (GetAttemptsFromContext req_inbound + 1)))
      = req_inbound_rerouted"
    by (simp add: req_inbound_def req_inbound_rerouted_def req_def WithContext_def WithValue_def
        GetAttemptsFromContext_def Value_def Attempt_def)
  have M: "MarkBackendStatus (pool_bc True 0) url_b False = pool_bc False 0"
    by (simp add: pool_bc_def MarkBackendStatus_def SetAlive_def url_a_def url_b_def)
  have L: "lb [Delivers] (pool_bc False 0) req_inbound_rerouted =
      Some (Returned, pool_bc False 2, [RoundTrip url_c req_inbound_rerouted True])"
    by (simp add: lb.simps req_inbound_rerouted_def req_def GetAttemptsFromContext_def Value_def
        Attempt_def word_sless_alt pool_bc_def NextIndex_def GetNextPeer_def
        GetNextPeer_loop.simps IsAlive_def Let_def)
  have L2: "lb [Fails ''refused'', Delivers] (pool_bc True 0) req_inbound =
     Some (Returned, pool_bc False 2,
           [RoundTrip url_b req_inbound False, RoundTrip url_c req_inbound_rerouted True])"
  proof -
    have "lb [Fails ''refused'', Delivers] (pool_bc True 0) req_inbound =
        ServeHTTP [Fails ''refused'', Delivers] (pool_bc True 1) url_b req_inbound"
      by (simp add: lb.simps req_inbound_def req_def GetAttemptsFromContext_def Value_def
        Attempt_def word_sless_alt pool_bc_def NextIndex_def GetNextPeer_def
        GetNextPeer_loop.simps IsAlive_def Let_def)
    moreover have "ErrorHandler [Delivers] (pool_bc True 1) url_b req_inbound ''refused'' =
        Some (Returned, pool_bc False 2, [RoundTrip url_c req_inbound_rerouted True])"
      using reroute_fresh_retries [of req_inbound "[Delivers]" "pool_bc True 1" url_b "''refused''"] nr
      unfolding Let_def w
      by (simp add: lb.simps req_inbound_rerouted_def req_def GetAttemptsFromContext_def Value_def
        Attempt_def word_sless_alt pool_bc_def NextIndex_def GetNextPeer_def
        GetNextPeer_loop.simps IsAlive_def Let_def MarkBackendStatus_def SetAlive_def url_a_def url_b_def)
    ultimately show ?thesis by (simp add: emit_def)
  qed
  have a: "ErrorHandler [Delivers] (pool_bc True 0) url_b req_inbound ''refused'' =
     Some (Returned, pool_bc False 2, [RoundTrip url_c req_inbound_rerouted True])"
    using T [of "[Delivers]"] nr unfolding w by (simp add: M L)
  have b: "GetRetryFromContext req_inbound_rerouted = 0"
    using T [of "[Delivers]"] nr unfolding w by blast
  have c: "list_all retry_free
     [RoundTrip url_b req_inbound False, RoundTrip url_c req_inbound_rerouted True]"
    using T [of "[Fails ''refused'', Delivers]"] nr L2 by blast
  show ?thesis using nr a b L2 c by simp
qed

lemma probe_results_length:
  "length (fst (probe_results dial w hosts)) = length hosts"
proof (induction hosts arbitrary: w)
  case Nil
  show ?case by simp
next
  case (Cons host hosts)
  obtain err w' where d: "dial w ''tcp'' host 2 = (err, w')"
    by (cases "dial w ''tcp'' host 2")
  obtain oks w'' where p: "probe_results dial w' hosts = (oks, w'')"
    by (cases "probe_results dial w' hosts")
  from Cons.IH [of w'] p have "length oks = length hosts" by simp
  then show ?case by (simp add: d p)
qed

lemma probe_results_snoc:
  "probe_results dial w (hosts @ [host]) =
     (case probe_results dial w hosts of
        (oks, w') \<Rightarrow>
          (case dial w' ''tcp'' host 2 of (err, w'') \<Rightarrow> (oks @ [err = None], w'')))"
  by (induction hosts arbitrary: w) (auto split: prod.splits)

lemma isBackendAlive_dial:
  "isBackendAlive dial w u =
     (case dial w ''tcp'' (URL_Host u) 2 of (err, w') \<Rightarrow> (err = None, w'))"
  by (auto simp: isBackendAlive_def Let_def split: prod.splits option.splits)

lemma HealthCheck_iter_prefix:
  "k \<le> length (backends s) \<Longrightarrow>
   HealthCheck_iter dial k (w, s) =
     (case probe_results dial w (map (\<lambda>b. URL_Host (URL b)) (take k (backends s))) of
        (oks, w') \<Rightarrow>
          (w', s\<lparr>backends := set_flags (take k (backends s)) oks @ drop k (backends s)\<rparr>))"
proof (induction k)
  case 0
  then show ?case by (simp add: set_flags_def)
next
  case (Suc k)
  let ?bs = "backends s"
  obtain oks w' where pr: "probe_results dial w (map (\<lambda>b. URL_Host (URL b)) (take k ?bs)) = (oks, w')"
    by (cases "probe_results dial w (map (\<lambda>b. URL_Host (URL b)) (take k ?bs))")
  obtain err w'' where d: "dial w' ''tcp'' (URL_Host (URL (?bs ! k))) 2 = (err, w'')"
    by (cases "dial w' ''tcp'' (URL_Host (URL (?bs ! k))) 2")
  have k: "k < length ?bs" using Suc.prems by simp
  have len: "length oks = k"
    using probe_results_length [of dial w "map (\<lambda>b. URL_Host (URL b)) (take k ?bs)"] pr k by simp
  have lenf: "length (set_flags (take k ?bs) oks) = k"
    using len k by (simp add: set_flags_def)
  have IH: "HealthCheck_iter dial k (w, s) =
      (w', s\<lparr>backends := set_flags (take k ?bs) oks @ drop k ?bs\<rparr>)"
    using Suc.IH k pr by simp
  have nth: "(set_flags (take k ?bs) oks @ drop k ?bs) ! k = ?bs ! k"
    using lenf k by (simp add: nth_append)
  have upd: "(set_flags (take k ?bs) oks @ drop k ?bs)[k := b'] =
      set_flags (take k ?bs) oks @ b' # drop (Suc k) ?bs" for b'
    using lenf k by (simp add: list_update_append Cons_nth_drop_Suc [symmetric])
  have tk: "take (Suc k) ?bs = take k ?bs @ [?bs ! k]"
    using k by (simp add: take_Suc_conv_app_nth)
  have pr': "probe_results dial w (map (\<lambda>b. URL_Host (URL b)) (take (Suc k) ?bs)) =
      (oks @ [err = None], w'')"
    by (simp add: tk probe_results_snoc pr d)
  have sf: "set_flags (take (Suc k) ?bs) (oks @ [err = None]) =
      set_flags (take k ?bs) oks @ [(?bs ! k)\<lparr>Alive := (err = None)\<rparr>]"
    using len k by (simp add: tk set_flags_def)
  have "HealthCheck_iter dial (Suc k) (w, s) =
      (w'', s\<lparr>backends := set_flags (take k ?bs) oks @
                 (?bs ! k)\<lparr>Alive := (err = None)\<rparr> # drop (Suc k) ?bs\<rparr>)"
    by (cases "err = None")
      (simp_all add: IH HealthCheck_body_def isBackendAlive_dial d nth upd SetAlive_def Let_def)
  then show ?case by (simp add: pr' sf)
qed

lemma HealthCheck_probe_results:
  "HealthCheck dial (w, s) =
     (case probe_results dial w (map (\<lambda>b. URL_Host (URL b)) (backends s)) of
        (oks, w') \<Rightarrow> (w', s\<lparr>backends := set_flags (backends s) oks\<rparr>))"
  by (simp add: HealthCheck_def HealthCheck_iter_prefix)

lemma healthCheck_ticks_comm:
  "healthCheck_ticks dial n (HealthCheck dial ws) = HealthCheck dial (healthCheck_ticks dial n ws)"
  by (induction n arbitrary: ws) simp_all

subsection \<open>Health-check pass\<close>

text \<open>
  C8. A pass of \<^verbatim>\<open>HealthCheck\<close> probes the backends in the order of the pool, each once,
  by a TCP connection to the host of its address with a timeout of 2 seconds, and sets
  the alive flag of each to whether its probe returned no error; nothing else of the pool
  changes. \<^verbatim>\<open>healthCheck\<close> runs one full pass before it serves any tick of its ticker, and
  one more pass at each tick.
\<close>

theorem HealthCheck_pass:
  "HealthCheck dial (w, s) =
     (case probe_results dial w (map (\<lambda>b. URL_Host (URL b)) (backends s)) of
        (oks, w') \<Rightarrow> (w', s\<lparr>backends := set_flags (backends s) oks\<rparr>)) \<and>
   length (fst (probe_results dial w (map (\<lambda>b. URL_Host (URL b)) (backends s)))) =
     length (backends s) \<and>
   isBackendAlive dial w u = (fst (dial w ''tcp'' (URL_Host u) 2) = None, snd (dial w ''tcp'' (URL_Host u) 2)) \<and>
   healthCheck dial 0 (w, s) = HealthCheck dial (w, s) \<and>
   healthCheck dial (Suc n) (w, s) = HealthCheck dial (healthCheck dial n (w, s))"
  by (simp add: HealthCheck_probe_results probe_results_length healthCheck_def
      healthCheck_ticks_comm isBackendAlive_dial split: prod.splits)

theorem HealthCheck_pass_witness:
  "HealthCheck dial_only_b ((), pool_abc 5) =
     ((), \<lparr>backends = [\<lparr>URL = url_a, Alive = False, ReverseProxy = url_a\<rparr>,
                       \<lparr>URL = url_b, Alive = True, ReverseProxy = url_b\<rparr>,
                       \<lparr>URL = url_c, Alive = False, ReverseProxy = url_c\<rparr>],
           currentIndex = 5\<rparr>) \<and>
   healthCheck dial_only_b 0 ((), pool_abc 5) = HealthCheck dial_only_b ((), pool_abc 5)"
proof -
  have pr: "probe_results dial_only_b () (map (\<lambda>b. URL_Host (URL b)) (backends (pool_abc 5))) =
      ([False, True, False], ())"
    by (simp add: pool_abc_def url_a_def url_b_def url_c_def dial_only_b_def)
  show ?thesis
    using HealthCheck_pass [of dial_only_b "()" "pool_abc 5" url_a 0]
    by (simp add: pr) (simp add: pool_abc_def set_flags_def)
qed

lemma Split_nonempty: "Split cs sep \<noteq> []"
  by (induction cs) (auto split: list.splits)

lemma main_loop_registers:
  "main_loop Parse urls s = (None, s') \<Longrightarrow>
   currentIndex s' = currentIndex s \<and>
   length (backends s') = length (backends s) + length urls \<and>
   ((\<forall>b\<in>set (backends s). Alive b) \<longrightarrow> (\<forall>b\<in>set (backends s'). Alive b))"
proof (induction urls arbitrary: s)
  case Nil
  then show ?case by simp
next
  case (Cons tok urls)
  from Cons.prems obtain serverUrl where p: "Parse tok = Inr serverUrl"
    by (cases "Parse tok") auto
  let ?s1 = "AddBackend s \<lparr>URL = serverUrl, Alive = True, ReverseProxy = serverUrl\<rparr>"
  from Cons.prems p have "main_loop Parse urls ?s1 = (None, s')" by simp
  from Cons.IH [OF this] show ?case by (auto simp: AddBackend_def)
qed

lemma main_Serving:
  assumes "fst (main Parse serverList port) = Serving port'"
  shows "backends (snd (main Parse serverList port)) \<noteq> [] \<and>
         currentIndex (snd (main Parse serverList port)) = 0 \<and>
         (\<forall>b\<in>set (backends (snd (main Parse serverList port))). Alive b)"
proof -
  have ne: "serverList \<noteq> []" using assms by (auto simp: main_def)
  obtain r s' where ml: "main_loop Parse (Split serverList (CHR '','')) serverPool = (r, s')"
    by (cases "main_loop Parse (Split serverList (CHR '','')) serverPool")
  have r: "r = None" using assms ne ml by (cases r) (auto simp: main_def Let_def)
  have m: "snd (main Parse serverList port) = s'" using ne ml r by (simp add: main_def Let_def)
  from main_loop_registers [OF ml [unfolded r]]
  have "currentIndex s' = 0" "length (backends s') = length (Split serverList (CHR '','')) "
    "\<forall>b\<in>set (backends s'). Alive b"
    by (simp_all add: serverPool_def)
  moreover have "length (Split serverList (CHR '','')) \<noteq> 0"
    using Split_nonempty [of serverList "CHR '',''"] by simp
  ultimately show ?thesis by (auto simp: m)
qed

subsection \<open>Startup\<close>

text \<open>
  C9. With an empty backend list \<^verbatim>\<open>main\<close> ends in \<^verbatim>\<open>log.Fatal\<close>: no backend has been
  registered, and neither the prober nor the server is started, whatever the port.
\<close>

theorem main_rejects_empty_list:
  "main Parse [] port =
     (Fatal ''Please provide one or more backends to load balance'', serverPool) \<and>
   backends (snd (main Parse [] port)) = [] \<and>
   fst (main Parse [] port) \<noteq> Serving port'"
  by (simp add: main_def serverPool_def)

theorem main_rejects_empty_list_witness:
  "main example_Parse [] 3030 =
     (Fatal ''Please provide one or more backends to load balance'',
      \<lparr>backends = [], currentIndex = 0\<rparr>) \<and>
   main example_Parse ''http://a:1,http://b:2'' 3030 =
     (Serving 3030,
      \<lparr>backends = [\<lparr>URL = url_a, Alive = True, ReverseProxy = url_a\<rparr>,
                   \<lparr>URL = url_b, Alive = True, ReverseProxy = url_b\<rparr>],
       currentIndex = 0\<rparr>)"
proof -
  have "main example_Parse [] 3030 =
     (Fatal ''Please provide one or more backends to load balance'',
      \<lparr>backends = [], currentIndex = 0\<rparr>)"
    using main_rejects_empty_list [of example_Parse 3030 3030] by (simp add: serverPool_def)
  moreover have "main example_Parse ''http://a:1,http://b:2'' 3030 =
     (Serving 3030,
      \<lparr>backends = [\<lparr>URL = url_a, Alive = True, ReverseProxy = url_a\<rparr>,
                   \<lparr>URL = url_b, Alive = True, ReverseProxy = url_b\<rparr>],
       currentIndex = 0\<rparr>)"
    by (simp add: main_def example_Parse_def serverPool_def AddBackend_def url_a_def url_b_def Let_def)
  ultimately show ?thesis by simp
qed

lemma find_scan_order_start:
  "0 < n \<Longrightarrow> start < n \<Longrightarrow> P start \<Longrightarrow> List.find P (scan_order n start) = Some start"
  by (simp add: scan_order_def upt_conv_Cons)

text \<open>
  The claim C10 as stated: from the registration until the first health-check pass
  completes, every backend reports alive. With two backends registered and both
  unreachable, the first pass has marked the first one dead after one of its two
  iterations. And before the pass has probed anything, a request whose delivery to B
  fails has B marked dead by the error handler.
\<close>

theorem first_pass_marks_dead_before_it_completes:
  "fst (main example_Parse ''http://a:1,http://b:2'' 3030) = Serving 3030 \<and>
   length (backends pool_ab_registered) = 2 \<and>
   \<not> IsAlive (backends (snd (HealthCheck_iter dial_down 1 ((), pool_ab_registered))) ! 0) \<and>
   lb [Fails ''refused'', Delivers] pool_ab_registered (req []) =
     Some (Returned, pool_ab True False 2,
           [RoundTrip url_b (req []) False, RoundTrip url_a (req [(Attempt, IntVal 1)]) True]) \<and>
   \<not> IsAlive (backends (pool_ab True False 2) ! 1)"
proof -
  have m: "main example_Parse ''http://a:1,http://b:2'' 3030 = (Serving 3030, pool_ab True True 0)"
    by (simp add: main_def example_Parse_def serverPool_def AddBackend_def url_a_def url_b_def
        Let_def pool_ab_def)
  have p: "pool_ab_registered = pool_ab True True 0"
    by (simp add: pool_ab_registered_def m)
  have a: "\<not> IsAlive (backends (snd (HealthCheck_iter dial_down 1 ((), pool_ab_registered))) ! 0)"
    by (simp add: p pool_ab_def HealthCheck_body_def isBackendAlive_def dial_down_def
        SetAlive_def IsAlive_def Let_def)
  have m2: "(2::nat) mod Suc (Suc 0) = 0" by (simp add: numeral_2_eq_2)
  have a0: "\<not> 3 <s GetAttemptsFromContext (req [])"
    by (simp add: req_def GetAttemptsFromContext_def Value_def word_sless_alt)
  have a1: "\<not> 3 <s GetAttemptsFromContext (req [(Attempt, IntVal 1)])"
    by (simp add: req_def GetAttemptsFromContext_def Value_def word_sless_alt)
  have r0: "\<not> 3 <s GetRetryFromContext (req [])"
    by (simp add: req_def GetRetryFromContext_def Value_def word_sless_alt)
  have w0: "WithContext (req [])
        (WithValue (Context (req [])) Attempt (IntVal (GetAttemptsFromContext (req []) + 1)))
      = req [(Attempt, IntVal 1)]"
    by (simp add: req_def WithContext_def WithValue_def GetAttemptsFromContext_def Value_def)
  have G0: "GetNextPeer (pool_ab True True 0) = (Inr (Some 1), pool_ab True True 1)"
    by (simp add: pool_ab_def NextIndex_def GetNextPeer_def GetNextPeer_loop.simps IsAlive_def Let_def)
  have G1: "GetNextPeer (pool_ab True False 1) = (Inr (Some 0), pool_ab True False 2)"
    by (simp add: m2 pool_ab_def NextIndex_def GetNextPeer_def GetNextPeer_loop.simps IsAlive_def Let_def)
  have M: "MarkBackendStatus (pool_ab True True 1) url_b False = pool_ab True False 1"
    by (simp add: pool_ab_def MarkBackendStatus_def SetAlive_def url_a_def url_b_def)
  have l1: "lb [Fails ''refused'', Delivers] (pool_ab True True 0) (req []) =
      ServeHTTP [Fails ''refused'', Delivers] (pool_ab True True 1) url_b (req [])"
    using a0 by (simp add: lb.simps Let_def G0) (simp add: pool_ab_def)
  have l2: "ErrorHandler [Delivers] (pool_ab True True 1) url_b (req []) ''refused'' =
      lb [Delivers] (pool_ab True False 1) (req [(Attempt, IntVal 1)])"
    using r0 by (simp add: ErrorHandler.simps Let_def w0 M)
  have l3: "lb [Delivers] (pool_ab True False 1) (req [(Attempt, IntVal 1)]) =
      Some (Returned, pool_ab True False 2, [RoundTrip url_a (req [(Attempt, IntVal 1)]) True])"
    using a1 by (simp add: lb.simps Let_def G1) (simp add: pool_ab_def)
  have b: "lb [Fails ''refused'', Delivers] pool_ab_registered (req []) =
     Some (Returned, pool_ab True False 2,
           [RoundTrip url_b (req []) False, RoundTrip url_a (req [(Attempt, IntVal 1)]) True])"
    by (simp add: p l1 l2 l3 emit_def)
  have c: "\<not> IsAlive (backends (pool_ab True False 2) ! 1)"
    by (simp add: pool_ab_def IsAlive_def)
  have s: "fst (main example_Parse ''http://a:1,http://b:2'' 3030) = Serving 3030"
    by (simp add: m)
  have n: "length (backends pool_ab_registered) = 2"
    by (simp add: p pool_ab_def)
  show ?thesis using s n a b c by blast
qed

lemma GetNextPeer_backends_any: "backends (snd (GetNextPeer s)) = backends s"
proof (cases "backends s = []")
  case True
  then show ?thesis by (simp add: GetNextPeer_def NextIndex_def Let_def)
next
  case False
  then show ?thesis by (rule GetNextPeer_backends)
qed

lemma MarkBackendStatus_loop_URL:
  "map URL (MarkBackendStatus_loop bs u v) = map URL bs"
  by (induction bs) (auto simp: SetAlive_def)

lemma MarkBackendStatus_loop_other:
  "i < length bs \<Longrightarrow> URL_String (URL (bs ! i)) \<noteq> URL_String u \<Longrightarrow>
   MarkBackendStatus_loop bs u v ! i = bs ! i"
proof (induction bs arbitrary: i)
  case Nil
  then show ?case by simp
next
  case (Cons b bs)
  then show ?case by (cases i) auto
qed

lemma failed_target_append:
  "failed_target (xs @ ys) u \<longleftrightarrow> failed_target xs u \<or> failed_target ys u"
  by (simp add: failed_target_def)

text \<open>
  What handling a request does to the flags: the addresses stay, and a backend that was
  alive is alive afterwards unless a delivery to its address failed.
\<close>

lemma request_keeps_alive:
  "\<forall>st s' es. lb outs s r = Some (st, s', es) \<longrightarrow>
     map URL (backends s') = map URL (backends s) \<and>
     (\<forall>i<length (backends s). Alive (backends s ! i) \<and>
        \<not> failed_target es (URL (backends s ! i)) \<longrightarrow> Alive (backends s' ! i))"
  "\<forall>st s' es. ServeHTTP outs1 s1 u1 r1 = Some (st, s', es) \<longrightarrow>
     map URL (backends s') = map URL (backends s1) \<and>
     (\<forall>i<length (backends s1). Alive (backends s1 ! i) \<and>
        \<not> failed_target es (URL (backends s1 ! i)) \<longrightarrow> Alive (backends s' ! i))"
  "\<forall>st s' es. ErrorHandler outs2 s2 u2 r2 e2 = Some (st, s', es) \<longrightarrow>
     map URL (backends s') = map URL (backends s2) \<and>
     (\<forall>i<length (backends s2). Alive (backends s2 ! i) \<and>
        URL_String (URL (backends s2 ! i)) \<noteq> URL_String u2 \<and>
        \<not> failed_target es (URL (backends s2 ! i)) \<longrightarrow> Alive (backends s' ! i))"
proof (induction outs s r and outs1 s1 u1 r1 and outs2 s2 u2 r2 e2
       rule: lb_ServeHTTP_ErrorHandler.induct)
  case (1 outs s r)
  show ?case
  proof (intro impI allI)
    fix st s' es
    assume res: "lb outs s r = Some (st, s', es)"
    show "map URL (backends s') = map URL (backends s) \<and>
     (\<forall>i<length (backends s). Alive (backends s ! i) \<and>
        \<not> failed_target es (URL (backends s ! i)) \<longrightarrow> Alive (backends s' ! i))"
    proof (cases "3 <s GetAttemptsFromContext r")
      case True
      with res show ?thesis by (auto simp: lb.simps Let_def)
    next
      case False
      obtain x y where g: "GetNextPeer s = (x, y)" by (cases "GetNextPeer s")
      have bsy: "backends y = backends s" using GetNextPeer_backends_any [of s] g by simp
      show ?thesis
      proof (cases x)
        case (Inl p)
        with res False g bsy show ?thesis by (auto simp: lb.simps Let_def)
      next
        case (Inr b)
        show ?thesis
        proof (cases b)
          case None
          with res False g Inr bsy show ?thesis by (auto simp: lb.simps Let_def)
        next
          case (Some peer)
          with res False g Inr
          have "ServeHTTP outs y (ReverseProxy (backends y ! peer)) r = Some (st, s', es)"
            by (simp add: lb.simps Let_def)
          with "1.IH" [OF refl False g [symmetric] Inr Some] show ?thesis
            unfolding bsy by blast
        qed
      qed
    qed
  qed
next
  case (2 s serverUrl r)
  show ?case by simp
next
  case (3 outs s serverUrl r)
  show ?case by auto
next
  case (4 e outs s serverUrl r)
  show ?case
  proof (intro impI allI)
    fix st s' es
    assume "ServeHTTP (Fails e # outs) s serverUrl r = Some (st, s', es)"
    then obtain es' where eh: "ErrorHandler outs s serverUrl r e = Some (st, s', es')"
      and es: "es = RoundTrip serverUrl r False # es'"
      by (auto simp: emit_Some)
    have ft: "failed_target es u \<longleftrightarrow> URL_String serverUrl = URL_String u \<or> failed_target es' u" for u
      by (simp add: es failed_target_def)
    from "4.IH" eh show "map URL (backends s') = map URL (backends s) \<and>
     (\<forall>i<length (backends s). Alive (backends s ! i) \<and>
        \<not> failed_target es (URL (backends s ! i)) \<longrightarrow> Alive (backends s' ! i))"
      unfolding ft by (metis (no_types, lifting))
  qed
next
  case (5 outs s serverUrl r e)
  show ?case
  proof (intro impI allI)
    fix st s' es
    assume res: "ErrorHandler outs s serverUrl r e = Some (st, s', es)"
    show "map URL (backends s') = map URL (backends s) \<and>
     (\<forall>i<length (backends s). Alive (backends s ! i) \<and>
        URL_String (URL (backends s ! i)) \<noteq> URL_String serverUrl \<and>
        \<not> failed_target es (URL (backends s ! i)) \<longrightarrow> Alive (backends s' ! i))"
    proof (cases "3 <s GetRetryFromContext r")
      case True
      let ?r' = "WithContext r (WithValue (Context r) Retry (IntVal (GetRetryFromContext r + 1)))"
      from res True obtain es' where sv: "ServeHTTP outs s serverUrl ?r' = Some (st, s', es')"
        and es: "es = After 10 # es'"
        by (auto simp: ErrorHandler.simps Let_def emit_Some)
      have ft: "failed_target es u \<longleftrightarrow> failed_target es' u" for u
        by (simp add: es failed_target_def)
      from "5.IH"(1) [OF refl True] sv show ?thesis
        unfolding ft by (metis (no_types, lifting))
    next
      case False
      let ?s1 = "MarkBackendStatus s serverUrl False"
      let ?r' = "WithContext r (WithValue (Context r) Attempt (IntVal (GetAttemptsFromContext r + 1)))"
      from res False have l: "lb outs ?s1 ?r' = Some (st, s', es)"
        by (simp add: ErrorHandler.simps Let_def)
      have u1: "map URL (backends ?s1) = map URL (backends s)"
        by (simp add: MarkBackendStatus_def MarkBackendStatus_loop_URL)
      then have len: "length (backends ?s1) = length (backends s)"
        by (metis length_map)
      have same: "backends ?s1 ! i = backends s ! i"
        if "i < length (backends s)" "URL_String (URL (backends s ! i)) \<noteq> URL_String serverUrl" for i
        using that by (simp add: MarkBackendStatus_def MarkBackendStatus_loop_other)
      from "5.IH"(2) [OF refl False refl refl] l
      have A: "map URL (backends s') = map URL (backends ?s1)"
        and B: "\<forall>i<length (backends ?s1). Alive (backends ?s1 ! i) \<and>
          \<not> failed_target es (URL (backends ?s1 ! i)) \<longrightarrow> Alive (backends s' ! i)"
        by blast+
      show ?thesis
      proof (intro conjI allI impI)
        show "map URL (backends s') = map URL (backends s)" using A u1 by simp
      next
        fix i assume i: "i < length (backends s)"
          and h: "Alive (backends s ! i) \<and>
            URL_String (URL (backends s ! i)) \<noteq> URL_String serverUrl \<and>
            \<not> failed_target es (URL (backends s ! i))"
        from i h have "backends ?s1 ! i = backends s ! i" by (intro same) auto
        with B i h len show "Alive (backends s' ! i)" by auto
      qed
    qed
  qed
qed

lemma HealthCheck_body_effect:
  assumes "k < length (backends s)" "HealthCheck_body dial k (w, s) = (w', s')"
  shows "map URL (backends s') = map URL (backends s) \<and>
         currentIndex s' = currentIndex s \<and>
         (\<forall>i<length (backends s). i \<noteq> k \<longrightarrow> backends s' ! i = backends s ! i)"
proof -
  obtain alive w1 where a: "isBackendAlive dial w (URL (backends s ! k)) = (alive, w1)"
    by (cases "isBackendAlive dial w (URL (backends s ! k))")
  from assms(2) a have s': "s' = s\<lparr>backends := (backends s)[k := (backends s ! k)\<lparr>Alive := alive\<rparr>]\<rparr>"
    by (cases alive) (auto simp: HealthCheck_body_def Let_def SetAlive_def)
  have "map URL ((backends s)[k := (backends s ! k)\<lparr>Alive := alive\<rparr>]) = map URL (backends s)"
    using assms(1) by (simp add: map_update list_update_same_conv)
  then show ?thesis by (simp add: s')
qed

lemma startup_window_invariant:
  "startup_window dial acts (w, s, k, es) = Some (w', s', k', es') \<Longrightarrow>
   map URL (backends s) = us \<Longrightarrow> k \<le> length us \<Longrightarrow>
   (\<forall>i<length us. k \<le> i \<and> \<not> failed_target es (us ! i) \<longrightarrow> Alive (backends s ! i)) \<Longrightarrow>
   map URL (backends s') = us \<and> k' \<le> length us \<and>
   (\<forall>i<length us. k' \<le> i \<and> \<not> failed_target es' (us ! i) \<longrightarrow> Alive (backends s' ! i))"
proof (induction acts arbitrary: w s k es)
  case Nil
  then show ?case by simp
next
  case (Cons act acts)
  have len: "length (backends s) = length us" using Cons.prems(2) by (metis length_map)
  show ?case
  proof (cases act)
    case ProbeNext
    with Cons.prems(1) have k: "k < length (backends s)" by (simp split: if_splits)
    obtain w1 s1 where b: "HealthCheck_body dial k (w, s) = (w1, s1)"
      by (cases "HealthCheck_body dial k (w, s)")
    from Cons.prems(1) ProbeNext k b
    have run: "startup_window dial acts (w1, s1, Suc k, es) = Some (w', s', k', es')" by simp
    note E = HealthCheck_body_effect [OF k b]
    show ?thesis
    proof (rule Cons.IH [OF run])
      show "map URL (backends s1) = us" using E Cons.prems(2) by simp
      show "Suc k \<le> length us" using k len by simp
      show "\<forall>i<length us. Suc k \<le> i \<and> \<not> failed_target es (us ! i) \<longrightarrow> Alive (backends s1 ! i)"
        using E Cons.prems(4) len by auto
    qed
  next
    case (ServeRequest r outs)
    with Cons.prems(1) obtain st s1 es1 where l: "lb outs s r = Some (st, s1, es1)"
      and run: "startup_window dial acts (w, s1, k, es @ es1) = Some (w', s', k', es')"
      by (auto split: option.splits)
    from request_keeps_alive(1) [of outs s r] l
    have A: "map URL (backends s1) = map URL (backends s)"
      and B: "\<forall>i<length (backends s). Alive (backends s ! i) \<and>
        \<not> failed_target es1 (URL (backends s ! i)) \<longrightarrow> Alive (backends s1 ! i)"
      by blast+
    have ui: "URL (backends s ! i) = us ! i" if "i < length us" for i
      using that Cons.prems(2) len by (metis nth_map)
    show ?thesis
    proof (rule Cons.IH [OF run])
      show "map URL (backends s1) = us" using A Cons.prems(2) by simp
      show "k \<le> length us" by (rule Cons.prems(3))
      show "\<forall>i<length us. k \<le> i \<and> \<not> failed_target (es @ es1) (us ! i) \<longrightarrow> Alive (backends s1 ! i)"
        using B Cons.prems(4) len ui by (auto simp: failed_target_append)
    qed
  qed
qed

lemma GetNextPeer_start_alive:
  assumes "backends s \<noteq> []"
      and "IsAlive (backends s ! (unat (currentIndex s + 1) mod length (backends s)))"
  shows "fst (GetNextPeer s) = Inr (Some (unat (currentIndex s + 1) mod length (backends s)))"
proof -
  have n: "0 < length (backends s)" using assms(1) by simp
  then have st: "unat (currentIndex s + 1) mod length (backends s) < length (backends s)" by simp
  show ?thesis
    using assms(2) by (simp add: GetNextPeer_find [OF assms(1)] Let_def find_scan_order_start [OF n st])
qed

lemma HealthCheck_iter_length:
  "k \<le> length (backends s) \<Longrightarrow>
   length (backends (snd (HealthCheck_iter dial k (w, s)))) = length (backends s)"
proof -
  assume k: "k \<le> length (backends s)"
  obtain oks w' where pr:
    "probe_results dial w (map (\<lambda>b. URL_Host (URL b)) (take k (backends s))) = (oks, w')"
    by (cases "probe_results dial w (map (\<lambda>b. URL_Host (URL b)) (take k (backends s)))")
  have "length oks = k"
    using probe_results_length [of dial w "map (\<lambda>b. URL_Host (URL b)) (take k (backends s))"] pr k
    by simp
  then show ?thesis using k by (simp add: HealthCheck_iter_prefix pr set_flags_def)
qed

lemma startup_window_probes:
  "k + j \<le> length (backends s) \<Longrightarrow>
   startup_window dial (replicate j ProbeNext)
     (fst (HealthCheck_iter dial k (w, s)), snd (HealthCheck_iter dial k (w, s)), k, es) =
   Some (fst (HealthCheck_iter dial (k + j) (w, s)), snd (HealthCheck_iter dial (k + j) (w, s)),
         k + j, es)"
proof (induction j arbitrary: k)
  case 0
  then show ?case by simp
next
  case (Suc j)
  have k: "k < length (backends (snd (HealthCheck_iter dial k (w, s))))"
    using Suc.prems by (simp add: HealthCheck_iter_length)
  have "Suc k + j \<le> length (backends s)" using Suc.prems by simp
  from Suc.IH [OF this] k show ?case
    by (auto split: prod.splits)
qed

text \<open>
  C10, amended. When startup succeeds, the pool has a backend and every backend is
  registered alive. From then until the first health-check pass is over, while the
  prober runs the iterations of that pass (each prefix of the pass is such a state) and
  the server handles requests, every backend
  that the pass has not probed yet and to whose address no delivery has failed still
  reports alive, whatever the network says of it, and \<^verbatim>\<open>GetNextPeer\<close> returns such a
  backend when the rotation starts at it.
\<close>

theorem registered_backends_alive:
  "fst (main Parse serverList port) = Serving port \<longrightarrow>
     (let s0 = snd (main Parse serverList port);
          n = length (backends s0)
      in 0 < n \<and>
         (\<forall>b\<in>set (backends s0). IsAlive b) \<and>
         (\<forall>j\<le>n. startup_window dial (replicate j ProbeNext) (w, s0, 0, []) =
            Some (fst (HealthCheck_iter dial j (w, s0)), snd (HealthCheck_iter dial j (w, s0)),
                  j, [])) \<and>
         (\<forall>acts w' s' k es.
            startup_window dial acts (w, s0, 0, []) = Some (w', s', k, es) \<longrightarrow>
              k \<le> n \<and> length (backends s') = n \<and>
              (\<forall>i<n. k \<le> i \<and> \<not> failed_target es (URL (backends s0 ! i)) \<longrightarrow>
                 IsAlive (backends s' ! i) \<and>
                 (unat (currentIndex s' + 1) mod n = i \<longrightarrow>
                    fst (GetNextPeer s') = Inr (Some i)))))"
proof
  assume a: "fst (main Parse serverList port) = Serving port"
  define s0 where "s0 = snd (main Parse serverList port)"
  define n where "n = length (backends s0)"
  from main_Serving [OF a]
  have ne: "backends s0 \<noteq> []" and al: "\<forall>b\<in>set (backends s0). Alive b"
    by (simp_all add: s0_def)
  have n: "0 < n" using ne by (simp add: n_def)
  have al0: "\<forall>b\<in>set (backends s0). IsAlive b" using al by (simp add: IsAlive_def)
  have pre: "\<forall>j\<le>n. startup_window dial (replicate j ProbeNext) (w, s0, 0, []) =
      Some (fst (HealthCheck_iter dial j (w, s0)), snd (HealthCheck_iter dial j (w, s0)), j, [])"
    using startup_window_probes [of 0 _ s0 dial w "[]"] by (simp add: n_def)
  have win: "k \<le> n \<and> length (backends s') = n \<and>
      (\<forall>i<n. k \<le> i \<and> \<not> failed_target es (URL (backends s0 ! i)) \<longrightarrow>
         IsAlive (backends s' ! i) \<and>
         (unat (currentIndex s' + 1) mod n = i \<longrightarrow> fst (GetNextPeer s') = Inr (Some i)))"
    if run: "startup_window dial acts (w, s0, 0, []) = Some (w', s', k, es)" for acts w' s' k es
  proof -
    have init: "\<forall>i<length (map URL (backends s0)).
        0 \<le> i \<and> \<not> failed_target [] (map URL (backends s0) ! i) \<longrightarrow> Alive (backends s0 ! i)"
      using al by simp
    from startup_window_invariant [OF run refl _ init]
    have U: "map URL (backends s') = map URL (backends s0)"
      and K: "k \<le> n"
      and A: "\<forall>i<n. k \<le> i \<and> \<not> failed_target es (map URL (backends s0) ! i) \<longrightarrow>
          Alive (backends s' ! i)"
      by (simp_all add: n_def)
    have L: "length (backends s') = n" using U unfolding n_def by (metis length_map)
    have ne': "backends s' \<noteq> []" using L n by auto
    have "IsAlive (backends s' ! i) \<and>
        (unat (currentIndex s' + 1) mod n = i \<longrightarrow> fst (GetNextPeer s') = Inr (Some i))"
      if i: "i < n" and h: "k \<le> i \<and> \<not> failed_target es (URL (backends s0 ! i))" for i
    proof -
      have alive: "IsAlive (backends s' ! i)"
        using A i h by (simp add: IsAlive_def n_def)
      moreover have "fst (GetNextPeer s') = Inr (Some i)" if st: "unat (currentIndex s' + 1) mod n = i"
        using GetNextPeer_start_alive [OF ne'] alive st by (simp add: L)
      ultimately show ?thesis by simp
    qed
    with K L show ?thesis by blast
  qed
  show "let s0 = snd (main Parse serverList port);
          n = length (backends s0)
      in 0 < n \<and>
         (\<forall>b\<in>set (backends s0). IsAlive b) \<and>
         (\<forall>j\<le>n. startup_window dial (replicate j ProbeNext) (w, s0, 0, []) =
            Some (fst (HealthCheck_iter dial j (w, s0)), snd (HealthCheck_iter dial j (w, s0)),
                  j, [])) \<and>
         (\<forall>acts w' s' k es.
            startup_window dial acts (w, s0, 0, []) = Some (w', s', k, es) \<longrightarrow>
              k \<le> n \<and> length (backends s') = n \<and>
              (\<forall>i<n. k \<le> i \<and> \<not> failed_target es (URL (backends s0 ! i)) \<longrightarrow>
                 IsAlive (backends s' ! i) \<and>
                 (unat (currentIndex s' + 1) mod n = i \<longrightarrow>
                    fst (GetNextPeer s') = Inr (Some i))))"
    unfolding Let_def s0_def [symmetric] n_def [symmetric]
    using n al0 pre win by blast
qed

theorem registered_backends_alive_witness:
  "fst (main example_Parse ''http://a:1,http://b:2'' 3030) = Serving 3030 \<and>
   pool_ab_registered = pool_ab True True 0 \<and>
   startup_window dial_down
     [ServeRequest (req []) [Delivers], ServeRequest (req []) [Delivers], ProbeNext]
     ((), pool_ab_registered, 0, []) =
     Some ((), pool_ab False True 2, 1,
           [RoundTrip url_b (req []) True, RoundTrip url_a (req []) True]) \<and>
   IsAlive (backends (pool_ab False True 2) ! 1) \<and>
   fst (GetNextPeer (pool_ab False True 2)) = Inr (Some 1) \<and>
   startup_window dial_down [ServeRequest (req []) [Fails ''refused'', Delivers]]
     ((), pool_ab_registered, 0, []) =
     Some ((), pool_ab True False 2, 0,
           [RoundTrip url_b (req []) False, RoundTrip url_a (req [(Attempt, IntVal 1)]) True]) \<and>
   IsAlive (backends (pool_ab True False 2) ! 0)"
proof -
  have m: "main example_Parse ''http://a:1,http://b:2'' 3030 = (Serving 3030, pool_ab True True 0)"
    by (simp add: main_def example_Parse_def serverPool_def AddBackend_def url_a_def url_b_def
        Let_def pool_ab_def)
  have s: "fst (main example_Parse ''http://a:1,http://b:2'' 3030) = Serving 3030"
    by (simp add: m)
  have p: "pool_ab_registered = pool_ab True True 0"
    by (simp add: pool_ab_registered_def m)
  have a0: "\<not> 3 <s GetAttemptsFromContext (req [])"
    by (simp add: req_def GetAttemptsFromContext_def Value_def word_sless_alt)
  have a1: "\<not> 3 <s GetAttemptsFromContext (req [(Attempt, IntVal 1)])"
    by (simp add: req_def GetAttemptsFromContext_def Value_def word_sless_alt)
  have r0: "\<not> 3 <s GetRetryFromContext (req [])"
    by (simp add: req_def GetRetryFromContext_def Value_def word_sless_alt)
  have w0: "WithContext (req [])
        (WithValue (Context (req [])) Attempt (IntVal (GetAttemptsFromContext (req []) + 1)))
      = req [(Attempt, IntVal 1)]"
    by (simp add: req_def WithContext_def WithValue_def GetAttemptsFromContext_def Value_def)
  have G: "GetNextPeer (pool_ab True b 0) = (Inr (Some 1), pool_ab True b 1)" if b for b
    using that
    by (simp add: pool_ab_def NextIndex_def GetNextPeer_def GetNextPeer_loop.simps IsAlive_def Let_def)
  have m2: "(2::nat) mod Suc (Suc 0) = 0" by (simp add: numeral_2_eq_2)
  have G1: "GetNextPeer (pool_ab True b 1) = (Inr (Some 0), pool_ab True b 2)" for b
    by (simp add: m2 pool_ab_def NextIndex_def GetNextPeer_def GetNextPeer_loop.simps IsAlive_def Let_def)
  have M: "MarkBackendStatus (pool_ab True True 1) url_b False = pool_ab True False 1"
    by (simp add: pool_ab_def MarkBackendStatus_def SetAlive_def url_a_def url_b_def)
  have L1: "lb [Delivers] (pool_ab True True 0) (req []) =
      Some (Returned, pool_ab True True 1, [RoundTrip url_b (req []) True])"
    using a0 by (simp add: lb.simps Let_def G) (simp add: pool_ab_def)
  have L2: "lb [Delivers] (pool_ab True b 1) q =
      Some (Returned, pool_ab True b 2, [RoundTrip url_a q True])"
    if "\<not> 3 <s GetAttemptsFromContext q" for b q
    using that by (simp add: lb.simps Let_def G1) (simp add: pool_ab_def)
  have L3: "lb [Fails ''refused'', Delivers] (pool_ab True True 0) (req []) =
      Some (Returned, pool_ab True False 2,
            [RoundTrip url_b (req []) False, RoundTrip url_a (req [(Attempt, IntVal 1)]) True])"
  proof -
    have "lb [Fails ''refused'', Delivers] (pool_ab True True 0) (req []) =
        ServeHTTP [Fails ''refused'', Delivers] (pool_ab True True 1) url_b (req [])"
      using a0 by (simp add: lb.simps Let_def G) (simp add: pool_ab_def)
    moreover have "ErrorHandler [Delivers] (pool_ab True True 1) url_b (req []) ''refused'' =
        lb [Delivers] (pool_ab True False 1) (req [(Attempt, IntVal 1)])"
      using r0 by (simp add: ErrorHandler.simps Let_def w0 M)
    ultimately show ?thesis by (simp add: L2 [OF a1] emit_def)
  qed
  have P: "HealthCheck_body dial_down 0 ((), pool_ab True True 2) = ((), pool_ab False True 2)"
    by (simp add: HealthCheck_body_def isBackendAlive_def dial_down_def SetAlive_def pool_ab_def Let_def)
  have W1: "startup_window dial_down
     [ServeRequest (req []) [Delivers], ServeRequest (req []) [Delivers], ProbeNext]
     ((), pool_ab_registered, 0, []) =
     Some ((), pool_ab False True 2, 1,
           [RoundTrip url_b (req []) True, RoundTrip url_a (req []) True])"
    by (simp add: p L1 L2 [OF a0] P) (simp add: pool_ab_def)
  have W2: "startup_window dial_down [ServeRequest (req []) [Fails ''refused'', Delivers]]
     ((), pool_ab_registered, 0, []) =
     Some ((), pool_ab True False 2, 0,
           [RoundTrip url_b (req []) False, RoundTrip url_a (req [(Attempt, IntVal 1)]) True])"
    by (simp add: p L3)
  note T = registered_backends_alive [of example_Parse "''http://a:1,http://b:2''" 3030 dial_down "()",
      unfolded Let_def, folded pool_ab_registered_def]
  have n2: "length (backends pool_ab_registered) = 2" by (simp add: p pool_ab_def)
  have u: "URL (backends pool_ab_registered ! 0) = url_a" "URL (backends pool_ab_registered ! Suc 0) = url_b"
    by (simp_all add: p pool_ab_def)
  have nf1: "\<not> failed_target [RoundTrip url_b (req []) True, RoundTrip url_a (req []) True] url_b"
    by (simp add: failed_target_def)
  have nf2: "\<not> failed_target
      [RoundTrip url_b (req []) False, RoundTrip url_a (req [(Attempt, IntVal 1)]) True] url_a"
    by (simp add: failed_target_def url_a_def url_b_def)
  have c2: "unat (currentIndex (pool_ab False True 2) + 1) mod 2 = 1"
    by (simp add: pool_ab_def)
  from T s W1 have "\<forall>i<2. 1 \<le> i \<and> \<not> failed_target
        [RoundTrip url_b (req []) True, RoundTrip url_a (req []) True] (URL (backends pool_ab_registered ! i)) \<longrightarrow>
      IsAlive (backends (pool_ab False True 2) ! i) \<and>
      (unat (currentIndex (pool_ab False True 2) + 1) mod 2 = i \<longrightarrow>
         fst (GetNextPeer (pool_ab False True 2)) = Inr (Some i))"
    unfolding n2 by blast
  from this [rule_format, of 1] nf1 c2
  have k1: "IsAlive (backends (pool_ab False True 2) ! 1) \<and>
      fst (GetNextPeer (pool_ab False True 2)) = Inr (Some 1)"
    by (simp add: u)
  from T s W2 have "\<forall>i<2. 0 \<le> i \<and> \<not> failed_target
        [RoundTrip url_b (req []) False, RoundTrip url_a (req [(Attempt, IntVal 1)]) True]
        (URL (backends pool_ab_registered ! i)) \<longrightarrow>
      IsAlive (backends (pool_ab True False 2) ! i) \<and>
      (unat (currentIndex (pool_ab True False 2) + 1) mod 2 = i \<longrightarrow>
         fst (GetNextPeer (pool_ab True False 2)) = Inr (Some i))"
    unfolding n2 by blast
  from this [rule_format, of 0] nf2
  have k2: "IsAlive (backends (pool_ab True False 2) ! 0)"
    by (simp add: u)
  show ?thesis using s p W1 W2 k1 k2 by simp
qed

end
